theory Spec2Isabelle
  imports Complex_Main
begin

section \<open>The voice interaction engine of ChatView\<close>

text \<open>
  The engine is the React component \<open>ChatView\<close>: refs and store fields that are read and
  written by event handlers and by the continuations of its \<open>async\<close> callbacks. The model
  is a transition system. A state holds the refs, the store fields the engine uses, and
  the browser objects the refs point to (capture sessions, speak calls, timers, animation
  frames, pending network calls). An event is one browser task: a click, a timer, an
  animation frame, a settled promise, a media event, or one promise job (microtask).
  Each \<open>async\<close> function is cut at its \<open>await\<close>s: the part before the first \<open>await\<close> keeps
  the source's name, each later part is a continuation named after it.

  The model has two layers. An \<open>engine\<close> is one instance of the component together with the
  store as that instance sees it; \<open>step\<close> runs the tasks of one instance, its unmounting
  included, and the callbacks that outlive it. An \<open>app\<close> is the store and every instance
  that App has mounted so far: a click on Settings unmounts ChatView, a click on Back to
  Chat mounts a new one with fresh refs, and the callbacks of the earlier instances keep
  running against their own refs and the one store. The store's text-to-speech setting is
  changed only by the settings view, which is never rendered together with ChatView, so
  every closure of one instance holds the value that instance rendered with.

  Of the browser the model has what the code relies on: promise jobs run before the next
  task, oldest first; a timer fires no earlier than its delay; MediaRecorder.stop() makes
  the recorder inactive at once and queues its stop event; an Audio element that is
  playing keeps playing until it is paused or ends, whoever still refers to it. The stop
  that a recorder performs by itself when its tracks end, and exceptions of constructors
  and of \<open>URL.createObjectURL\<close>, are not modelled.

  Objects are identified by the number of the call or session that created them: the
  AbortController, the Audio element, the blob URL and the promise resolver made by the
  n-th speak call are all named n, the stream, audio context, analyser and recorder made
  by the n-th capture session are all named n.
\<close>

subsection \<open>SpeechSynthesisPlayer: stopTtsNow and speakResponse\<close>

text \<open>The continuation that awaits a speak call: the rest of the calling function.\<close>

datatype kont =
    KApology        \<comment> \<open>processAudio, after the apology for an empty transcription\<close>
  | KReply          \<comment> \<open>processAudio, after the assistant's reply\<close>
  | KError          \<comment> \<open>processAudio, catch block\<close>
  | KSwitchActive   \<comment> \<open>handleModeSwitch, conversation active\<close>
  | KSwitchIdle     \<comment> \<open>handleModeSwitch, no conversation\<close>
  | KGreeting       \<comment> \<open>startConversation, after the first greeting\<close>
  | KMicError       \<comment> \<open>startRecording, catch block\<close>
  | KText           \<comment> \<open>handleTextSubmit, after the reply\<close>

text \<open>Promise jobs: the resumption of speakResponse after its playback promise resolved,
  and the resumption of a caller after the promise of speakResponse resolved.\<close>

datatype job = JSpeakDone nat | JCont kont

datatype call_status =
    InFlight     \<comment> \<open>awaiting api.getTtsAudio\<close>
  | Playing      \<comment> \<open>awaiting the playback promise\<close>
  | Resolved     \<comment> \<open>playback promise resolved, resumption queued\<close>
  | Returned     \<comment> \<open>the promise of speakResponse has resolved\<close>

datatype fetch_result = FetchOk | FetchAbort | FetchFail

record speak_call =
  c_text :: string
  c_seq :: nat
  c_kont :: kont
  c_status :: call_status
  c_aborted :: bool      \<comment> \<open>abort() was called on its controller\<close>
  c_audible :: bool      \<comment> \<open>its Audio element is producing sound\<close>
  c_handlers :: bool     \<comment> \<open>onended and onerror are attached\<close>
  c_url_live :: bool     \<comment> \<open>its blob URL exists and is not revoked\<close>
  c_played :: bool       \<comment> \<open>audio.play() was called\<close>

record tts =
  ttsAudioRef :: "nat option"
  ttsUrlRef :: "nat option"
  ttsAbortRef :: "nat option"
  ttsSeqRef :: nat
  ttsResolveRef :: "nat option"
  calls :: "speak_call list"
  jobs :: "job list"

definition upd_call :: "nat \<Rightarrow> (speak_call \<Rightarrow> speak_call) \<Rightarrow> tts \<Rightarrow> tts" where
  "upd_call c f t = t\<lparr>calls := (calls t)[c := f (calls t ! c)]\<rparr>"

text \<open>Calling a promise's resolve function: the first call resolves the promise and queues
  the resumption of the awaiting function, later calls do nothing.\<close>

definition resolve_call :: "nat \<Rightarrow> tts \<Rightarrow> tts" where
  "resolve_call c t =
     (if c < length (calls t) \<and> c_status (calls t ! c) = Playing
      then (upd_call c (\<lambda>x. x\<lparr>c_status := Resolved\<rparr>) t)\<lparr>jobs := jobs t @ [JSpeakDone c]\<rparr>
      else t)"

text \<open>The four blocks of stopTtsNow, in the order of the source.\<close>

definition abort_request :: "tts \<Rightarrow> tts" where
  "abort_request t =
     (case ttsAbortRef t of None \<Rightarrow> t
      | Some c \<Rightarrow> (upd_call c (\<lambda>x. x\<lparr>c_aborted := True\<rparr>) t)\<lparr>ttsAbortRef := None\<rparr>)"

definition stop_audio :: "tts \<Rightarrow> tts" where
  "stop_audio t =
     (case ttsAudioRef t of None \<Rightarrow> t
      | Some c \<Rightarrow> (upd_call c (\<lambda>x. x\<lparr>c_handlers := False, c_audible := False\<rparr>) t)
                    \<lparr>ttsAudioRef := None\<rparr>)"

definition release_url :: "tts \<Rightarrow> tts" where
  "release_url t =
     (case ttsUrlRef t of None \<Rightarrow> t
      | Some c \<Rightarrow> (upd_call c (\<lambda>x. x\<lparr>c_url_live := False\<rparr>) t)\<lparr>ttsUrlRef := None\<rparr>)"

definition resolve_pending :: "tts \<Rightarrow> tts" where
  "resolve_pending t =
     (case ttsResolveRef t of None \<Rightarrow> t
      | Some c \<Rightarrow> (resolve_call c t)\<lparr>ttsResolveRef := None\<rparr>)"

definition stopTtsNow :: "tts \<Rightarrow> tts" where
  "stopTtsNow t = resolve_pending (release_url (stop_audio (abort_request t)))"

text \<open>speakResponse up to \<open>await api.getTtsAudio\<close>. With text-to-speech disabled the
  function returns at once and only its caller's resumption is queued.\<close>

definition speakResponse :: "bool \<Rightarrow> kont \<Rightarrow> string \<Rightarrow> tts \<Rightarrow> tts" where
  "speakResponse enabled k txt t =
     (if \<not> enabled then t\<lparr>jobs := jobs t @ [JCont k]\<rparr>
      else
        let t1 = stopTtsNow t;
            seq = Suc (ttsSeqRef t1);
            c = length (calls t1)
        in t1\<lparr>ttsSeqRef := seq, ttsAbortRef := Some c,
               calls := calls t1 @
                 [\<lparr>c_text = txt, c_seq = seq, c_kont = k, c_status = InFlight,
                   c_aborted = False, c_audible = False, c_handlers = False,
                   c_url_live = False, c_played = False\<rparr>]\<rparr>)"

text \<open>The \<open>finally\<close> block and the return of speakResponse.\<close>

definition speak_return :: "nat \<Rightarrow> tts \<Rightarrow> tts" where
  "speak_return c t =
     (let t1 = (if ttsAbortRef t = Some c then t\<lparr>ttsAbortRef := None\<rparr> else t)
      in (upd_call c (\<lambda>x. x\<lparr>c_status := Returned\<rparr>) t1)
           \<lparr>jobs := jobs t1 @ [JCont (c_kont (calls t1 ! c))]\<rparr>)"

text \<open>speakResponse after \<open>await api.getTtsAudio\<close> settled.\<close>

definition speak_fetched :: "nat \<Rightarrow> fetch_result \<Rightarrow> tts \<Rightarrow> tts" where
  "speak_fetched c r t =
     (case r of
        FetchOk \<Rightarrow>
          if c_seq (calls t ! c) \<noteq> ttsSeqRef t then speak_return c t
          else (upd_call c (\<lambda>x. x\<lparr>c_status := Playing, c_url_live := True, c_handlers := True,
                                  c_audible := True, c_played := True\<rparr>) t)
                 \<lparr>ttsUrlRef := Some c, ttsAudioRef := Some c, ttsResolveRef := Some c\<rparr>
      | FetchAbort \<Rightarrow> speak_return c t
      | FetchFail \<Rightarrow> speak_return c t)"

definition cleanupAndResolve :: "nat \<Rightarrow> tts \<Rightarrow> tts" where
  "cleanupAndResolve c t =
     (let t1 = (if ttsResolveRef t = Some c then t\<lparr>ttsResolveRef := None\<rparr> else t);
          t2 = (if ttsAudioRef t1 = Some c then t1\<lparr>ttsAudioRef := None\<rparr> else t1);
          t3 = (if ttsUrlRef t2 = Some c
                then (upd_call c (\<lambda>x. x\<lparr>c_url_live := False\<rparr>) t2)\<lparr>ttsUrlRef := None\<rparr>
                else t2)
      in resolve_call c t3)"

text \<open>A media event of the Audio element of call c: the sound has stopped (ended, failed,
  or play() was rejected); the handler runs if it is still attached. The rejection handler
  of play() cannot be detached.\<close>

datatype audio_event = Ended | Errored | PlayRejected

definition audio_fired :: "nat \<Rightarrow> audio_event \<Rightarrow> tts \<Rightarrow> tts" where
  "audio_fired c ev t =
     (let attached = (ev = PlayRejected \<or> c_handlers (calls t ! c));
          t1 = upd_call c (\<lambda>x. x\<lparr>c_audible := False\<rparr>) t
      in if attached then cleanupAndResolve c t1 else t1)"

subsection \<open>The engine state\<close>

datatype phase = Idle | Listening | Processing | Speaking

datatype chat_mode = Chat | Story | Learning | Game

datatype view = ChatView | SettingsView | RegisterView

datatype role = User | Assistant

datatype recorder_state = Inactive | Recording

text \<open>Which function awaits a pending api.chat call: processAudio or handleTextSubmit.\<close>

datatype origin = Voice | Typed

text \<open>The callbacks given to setTimeout. The callback of the maximum-duration timer does
  not mention the session that scheduled it; the session number is kept here only to
  tell the timers apart.\<close>

datatype timer =
    TRestartIfContinue   \<comment> \<open>processAudio, 300 ms, no speech detected\<close>
  | TRestart             \<comment> \<open>processAudio and handleModeSwitch, 500 ms\<close>
  | TMaxTime nat         \<comment> \<open>startRecording, MAX_RECORD_TIME\<close>

text \<open>api.transcribeAudio(blob) and api.chat(message, mode); api.chat has two parameters,
  a third argument is dropped.\<close>

datatype api_call = ApiTranscribe nat | ApiChat string chat_mode

text \<open>The buttons of the sidebar: \<open>ChatMode | 'settings'\<close>.\<close>

datatype nav_id = Mode chat_mode | Settings

text \<open>The browser objects of one capture session: the MediaStream, the AudioContext and
  the MediaRecorder with its queued stop event.\<close>

record session =
  stream_live :: bool
  ctx_closed :: bool
  rec_state :: recorder_state
  stop_queued :: bool

text \<open>What all instances of ChatView share: the store (useStore) and the clock. The store
  has no field \<open>currentLanguage\<close> and no action \<open>setCurrentLanguage\<close>: ChatView reads both
  as \<open>undefined\<close>.\<close>

record shared =
  jarvisPhase :: phase
  isListening :: bool
  tts_setting :: bool       \<comment> \<open>the store's ttsEnabled\<close>
  currentMode :: chat_mode
  currentView :: view
  robotName :: string       \<comment> \<open>status.robotName\<close>
  messages :: "(role \<times> string) list"
  onModeSwitch :: bool      \<comment> \<open>not null: handleModeSwitch of the mounted ChatView\<close>
  clock :: nat              \<comment> \<open>Date.now()\<close>

text \<open>One instance of ChatView: the store, what the instance read from it when it rendered,
  its component state, its refs, and the browser objects its callbacks created.\<close>

record engine = shared +
  ttsEnabled :: bool        \<comment> \<open>the ttsEnabled that speakResponse closes over\<close>
  mounted :: bool
  \<comment> \<open>component state\<close>
  conversationActive :: bool
  audioLevel :: real
  isLoading :: bool
  \<comment> \<open>refs\<close>
  hasGreetedRef :: bool
  shouldContinueRef :: bool
  mediaRecorderRef :: "nat option"
  audioChunksRef :: "nat list"
  streamRef :: "nat option"
  audioContextRef :: "nat option"
  analyserRef :: "nat option"
  silenceStartRef :: "nat option"
  speechDetectedRef :: bool
  rafIdRef :: "nat option"
  isRecordingRef :: bool
  currentModeRef :: chat_mode
  player :: tts
  \<comment> \<open>browser\<close>
  sessions :: "session list"
  gum_pending :: nat
  frames :: "nat list"
  next_frame :: nat
  timers :: "(nat \<times> timer) list"
  transcribing :: nat
  chatting :: "origin list"
  api_log :: "api_call list"

definition SILENCE_THRESHOLD :: real where "SILENCE_THRESHOLD = 0.015"
definition SILENCE_DURATION :: nat where "SILENCE_DURATION = 1500"
definition MAX_RECORD_TIME :: nat where "MAX_RECORD_TIME = 20000"

text \<open>JavaScript truthiness of a ref that holds a number or null: 0 is falsy.\<close>

definition truthy :: "nat option \<Rightarrow> bool" where
  "truthy r = (case r of None \<Rightarrow> False | Some n \<Rightarrow> n \<noteq> 0)"

definition speak :: "kont \<Rightarrow> string \<Rightarrow> engine \<Rightarrow> engine" where
  "speak k txt s = s\<lparr>player := speakResponse (ttsEnabled s) k txt (player s)\<rparr>"

definition addMessage :: "role \<Rightarrow> string \<Rightarrow> engine \<Rightarrow> engine" where
  "addMessage r txt s = s\<lparr>messages := messages s @ [(r, txt)]\<rparr>"

definition setTimeout :: "timer \<Rightarrow> nat \<Rightarrow> engine \<Rightarrow> engine" where
  "setTimeout cb delay s = s\<lparr>timers := timers s @ [(clock s + delay, cb)]\<rparr>"

definition upd_session :: "nat \<Rightarrow> (session \<Rightarrow> session) \<Rightarrow> engine \<Rightarrow> engine" where
  "upd_session r f s = s\<lparr>sessions := (sessions s)[r := f (sessions s ! r)]\<rparr>"

subsection \<open>AudioCaptureSession and VoiceActivityMonitor\<close>

definition getAudioLevel :: "nat list \<Rightarrow> real" where
  "getAudioLevel dataArray = real (sum_list dataArray) / real (length dataArray) / 255"

text \<open>\<open>if (rafIdRef.current) { cancelAnimationFrame(rafIdRef.current); rafIdRef.current = null }\<close>\<close>

definition cancel_frame :: "engine \<Rightarrow> engine" where
  "cancel_frame s =
     (if truthy (rafIdRef s)
      then s\<lparr>frames := removeAll (the (rafIdRef s)) (frames s), rafIdRef := None\<rparr>
      else s)"

text \<open>\<open>mediaRecorderRef.current?.state === 'recording'\<close>\<close>

definition recording :: "engine \<Rightarrow> bool" where
  "recording s =
     (case mediaRecorderRef s of None \<Rightarrow> False
      | Some r \<Rightarrow> r < length (sessions s) \<and> rec_state (sessions s ! r) = Recording)"

text \<open>\<open>if (mediaRecorderRef.current?.state === 'recording') mediaRecorderRef.current.stop()\<close>:
  the recorder becomes inactive at once and its stop event is queued.\<close>

definition stop_recorder :: "engine \<Rightarrow> engine" where
  "stop_recorder s =
     (if recording s
      then upd_session (the (mediaRecorderRef s))
             (\<lambda>x. x\<lparr>rec_state := Inactive, stop_queued := True\<rparr>) s
      else s)"

text \<open>\<open>if (streamRef.current) { streamRef.current.getTracks().forEach(t => t.stop());
  streamRef.current = null }\<close>\<close>

definition stop_tracks :: "engine \<Rightarrow> engine" where
  "stop_tracks s =
     (case streamRef s of None \<Rightarrow> s
      | Some r \<Rightarrow> (upd_session r (\<lambda>x. x\<lparr>stream_live := False\<rparr>) s)\<lparr>streamRef := None\<rparr>)"

definition stopRecording :: "engine \<Rightarrow> engine" where
  "stopRecording s = stop_recorder (cancel_frame (s\<lparr>isRecordingRef := False\<rparr>))"

definition requestAnimationFrame :: "engine \<Rightarrow> engine" where
  "requestAnimationFrame s =
     s\<lparr>rafIdRef := Some (next_frame s), frames := frames s @ [next_frame s],
       next_frame := Suc (next_frame s)\<rparr>"

text \<open>monitorAudio, run by an animation frame; \<open>dataArray\<close> is what the analyser delivers and
  the clock is \<open>Date.now()\<close>.\<close>

definition monitorAudio :: "nat list \<Rightarrow> engine \<Rightarrow> engine" where
  "monitorAudio dataArray s =
     (if analyserRef s = None \<or> \<not> isRecordingRef s then s
      else
        let level = getAudioLevel dataArray;
            s1 = s\<lparr>audioLevel := level\<rparr>;
            now = clock s
        in if level > SILENCE_THRESHOLD
           then requestAnimationFrame (s1\<lparr>silenceStartRef := None, speechDetectedRef := True\<rparr>)
           else if speechDetectedRef s1
           then (if \<not> truthy (silenceStartRef s1)
                 then requestAnimationFrame (s1\<lparr>silenceStartRef := Some now\<rparr>)
                 else if now - the (silenceStartRef s1) > SILENCE_DURATION
                 then stopRecording s1
                 else requestAnimationFrame s1)
           else requestAnimationFrame s1)"

text \<open>startRecording up to \<open>await getUserMedia\<close>, and its two continuations.\<close>

definition startRecording :: "engine \<Rightarrow> engine" where
  "startRecording s =
     s\<lparr>speechDetectedRef := False, silenceStartRef := None, audioChunksRef := [],
       isRecordingRef := True, gum_pending := Suc (gum_pending s)\<rparr>"

definition startRecording_granted :: "engine \<Rightarrow> engine" where
  "startRecording_granted s =
     (let r = length (sessions s);
          s1 = s\<lparr>sessions := sessions s @
                  [\<lparr>stream_live = True, ctx_closed = False, rec_state = Recording,
                    stop_queued = False\<rparr>],
                streamRef := Some r, audioContextRef := Some r, analyserRef := Some r,
                mediaRecorderRef := Some r\<rparr>
      in setTimeout (TMaxTime r) MAX_RECORD_TIME (requestAnimationFrame s1))"

definition startRecording_denied :: "engine \<Rightarrow> engine" where
  "startRecording_denied s =
     speak KMicError ''I can't access your microphone.'' (s\<lparr>jarvisPhase := Speaking\<rparr>)"

text \<open>The callback of the maximum-duration timer.\<close>

definition max_time_reached :: "engine \<Rightarrow> engine" where
  "max_time_reached s = (if isRecordingRef s then stopRecording s else s)"

definition ondataavailable :: "nat \<Rightarrow> engine \<Rightarrow> engine" where
  "ondataavailable sz s =
     (if sz > 0 then s\<lparr>audioChunksRef := audioChunksRef s @ [sz]\<rparr> else s)"

subsection \<open>ConversationOrchestrator: processAudio and its continuations\<close>

text \<open>processAudio up to \<open>await api.transcribeAudio\<close>; \<open>blob_size\<close> is \<open>audioBlob.size\<close>.\<close>

definition processAudio :: "nat \<Rightarrow> engine \<Rightarrow> engine" where
  "processAudio blob_size s =
     (if blob_size = 0 \<or> \<not> speechDetectedRef s
      then (if shouldContinueRef s then setTimeout TRestartIfContinue 300 s
            else s\<lparr>jarvisPhase := Idle, isListening := False\<rparr>)
      else s\<lparr>jarvisPhase := Processing,
             api_log := api_log s @ [ApiTranscribe blob_size],
             transcribing := Suc (transcribing s)\<rparr>)"

text \<open>The stop handler of a recorder. It reads the shared refs, not the objects of the
  session that installed it.\<close>

definition onstop :: "engine \<Rightarrow> engine" where
  "onstop s =
     (let s1 = stop_tracks s;
          s2 = (case audioContextRef s1 of None \<Rightarrow> s1
                | Some a \<Rightarrow> upd_session a (\<lambda>x. x\<lparr>ctx_closed := True\<rparr>) s1)
      in processAudio (sum_list (audioChunksRef s2)) s2)"

definition hearing_apology :: string where
  "hearing_apology = ''I couldn't hear that. Please try again.''"

definition failure_apology :: string where
  "failure_apology = ''Sorry, something went wrong!''"

text \<open>processAudio after api.transcribeAudio returned \<open>{text, success}\<close>.\<close>

definition processAudio_transcribed :: "string \<Rightarrow> bool \<Rightarrow> engine \<Rightarrow> engine" where
  "processAudio_transcribed txt success s =
     (if \<not> success \<or> txt = []
      then speak KApology hearing_apology (s\<lparr>jarvisPhase := Speaking\<rparr>)
      else (addMessage User txt s)
             \<lparr>api_log := api_log s @ [ApiChat txt (currentModeRef s)],
              chatting := chatting s @ [Voice]\<rparr>)"

text \<open>The catch block of processAudio: api.transcribeAudio or api.chat threw, or the \<open>try\<close>
  block threw after them.\<close>

definition processAudio_failed :: "engine \<Rightarrow> engine" where
  "processAudio_failed s = speak KError failure_apology (s\<lparr>jarvisPhase := Speaking\<rparr>)"

text \<open>\<open>if (response.language)\<close>: the response carries a language that is not the empty
  string.\<close>

definition language_given :: "string option \<Rightarrow> bool" where
  "language_given lang = (case lang of None \<Rightarrow> False | Some l \<Rightarrow> l \<noteq> [])"

text \<open>processAudio after api.chat returned. With a language in the response it calls
  \<open>setCurrentLanguage\<close>, which is \<open>undefined\<close>: the call throws a TypeError into the catch
  block.\<close>

definition processAudio_replied :: "string \<Rightarrow> string option \<Rightarrow> engine \<Rightarrow> engine" where
  "processAudio_replied response lang s =
     (if language_given lang then processAudio_failed s
      else speak KReply response (addMessage Assistant response (s\<lparr>jarvisPhase := Speaking\<rparr>)))"

subsection \<open>ModeSwitchCoordinator, start and stop\<close>

definition handleModeSwitch :: "chat_mode \<Rightarrow> string \<Rightarrow> engine \<Rightarrow> engine" where
  "handleModeSwitch mode greeting s =
     (let s1 = s\<lparr>player := stopTtsNow (player s)\<rparr>
      in if conversationActive s1 \<or> jarvisPhase s1 \<noteq> Idle
         then speak KSwitchActive greeting
                ((stop_tracks (stop_recorder (cancel_frame (s1\<lparr>isRecordingRef := False\<rparr>))))
                   \<lparr>jarvisPhase := Speaking\<rparr>)
         else speak KSwitchIdle greeting (s1\<lparr>jarvisPhase := Speaking\<rparr>))"

fun MODE_GREETINGS :: "chat_mode \<Rightarrow> string" where
  "MODE_GREETINGS Chat = ''Chat mode! What do you want to talk about?''"
| "MODE_GREETINGS Story =
     ''Story mode activated! Should I tell you a fairy tale, or would you like to create one together?''"
| "MODE_GREETINGS Learning = ''Learning mode! What would you like to learn about today?''"
| "MODE_GREETINGS Game = ''Game mode! Let's play a fun game together!''"

text \<open>handleNavClick of the sidebar. \<open>onModeSwitch\<close>, when it is not null, is handleModeSwitch
  of the mounted ChatView.\<close>

definition handleNavClick :: "nav_id \<Rightarrow> engine \<Rightarrow> engine" where
  "handleNavClick nid s =
     (case nid of
        Settings \<Rightarrow> s\<lparr>currentView := SettingsView\<rparr>
      | Mode mode_id \<Rightarrow>
          if mode_id \<noteq> currentMode s \<or> currentView s \<noteq> ChatView
          then
            let greeting = MODE_GREETINGS mode_id;
                s1 = s\<lparr>currentMode := mode_id, currentView := ChatView,
                       messages := [(Assistant, greeting)]\<rparr>
            in if onModeSwitch s1 then handleModeSwitch mode_id greeting s1 else s1
          else s)"

text \<open>The cleanup functions of the effects of ChatView, run when it is unmounted. They
  clear the two flags, cancel the scheduled frame, stop the tracks of the stream and close
  the audio context, without clearing the refs, and they unregister the mode-switch
  callback. They do not call stopTtsNow, do not stop the recorder and cancel no timer.
  The callbacks that outlive the component still write its component state; React drops
  those writes, the model keeps them in fields that nothing reads any more.\<close>

definition unmountChatView :: "engine \<Rightarrow> engine" where
  "unmountChatView s =
     (let s1 = s\<lparr>shouldContinueRef := False, isRecordingRef := False\<rparr>;
          s2 = (if truthy (rafIdRef s1)
                then s1\<lparr>frames := removeAll (the (rafIdRef s1)) (frames s1)\<rparr> else s1);
          s3 = (case streamRef s2 of None \<Rightarrow> s2
                | Some r \<Rightarrow> upd_session r (\<lambda>x. x\<lparr>stream_live := False\<rparr>) s2);
          s4 = (case audioContextRef s3 of None \<Rightarrow> s3
                | Some a \<Rightarrow> upd_session a (\<lambda>x. x\<lparr>ctx_closed := True\<rparr>) s3)
      in s4\<lparr>onModeSwitch := False, mounted := False\<rparr>)"

text \<open>What React does after a click on the sidebar has written the store: App renders
  again; when the view is no longer the chat view ChatView is unmounted, otherwise its
  effect copies the current mode into currentModeRef.\<close>

definition rerender :: "engine \<Rightarrow> engine" where
  "rerender s =
     (if currentView s = ChatView then s\<lparr>currentModeRef := currentMode s\<rparr>
      else unmountChatView s)"

definition first_greeting :: "engine \<Rightarrow> string" where
  "first_greeting s =
     ''Hello! I'm '' @ (if robotName s = [] then ''VV'' else robotName s) @
     ''! What would you like to talk about?''"

definition startConversation :: "engine \<Rightarrow> engine" where
  "startConversation s =
     (let s1 = s\<lparr>shouldContinueRef := True, conversationActive := True\<rparr>
      in if \<not> hasGreetedRef s1
         then speak KGreeting (first_greeting s1)
                (addMessage Assistant (first_greeting s1)
                   (s1\<lparr>hasGreetedRef := True, jarvisPhase := Speaking\<rparr>))
         else startRecording (s1\<lparr>jarvisPhase := Listening, isListening := True\<rparr>))"

definition stopConversation :: "engine \<Rightarrow> engine" where
  "stopConversation s =
     (let s1 = s\<lparr>shouldContinueRef := False, conversationActive := False,
                 isRecordingRef := False, player := stopTtsNow (player s)\<rparr>
      in (stop_tracks (stop_recorder (cancel_frame s1)))
           \<lparr>jarvisPhase := Idle, isListening := False, audioLevel := 0\<rparr>)"

definition handleMicClick :: "engine \<Rightarrow> engine" where
  "handleMicClick s =
     (if conversationActive s \<or> jarvisPhase s \<noteq> Idle then stopConversation s
      else startConversation s)"

text \<open>handleTextSubmit; \<open>message\<close> is the trimmed text input.\<close>

definition handleTextSubmit :: "string \<Rightarrow> engine \<Rightarrow> engine" where
  "handleTextSubmit message s =
     (if message = [] \<or> isLoading s \<or> jarvisPhase s \<noteq> Idle then s
      else (addMessage User message s)
             \<lparr>isLoading := True, jarvisPhase := Processing,
              api_log := api_log s @ [ApiChat message (currentMode s)],
              chatting := chatting s @ [Typed]\<rparr>)"

text \<open>The catch and finally blocks of handleTextSubmit.\<close>

definition handleTextSubmit_failed :: "engine \<Rightarrow> engine" where
  "handleTextSubmit_failed s =
     (addMessage Assistant ''Sorry, I had trouble responding.'' s)
       \<lparr>jarvisPhase := Idle, isLoading := False\<rparr>"

text \<open>handleTextSubmit after api.chat returned; a language in the response makes it throw,
  as in processAudio.\<close>

definition handleTextSubmit_replied :: "string \<Rightarrow> string option \<Rightarrow> engine \<Rightarrow> engine" where
  "handleTextSubmit_replied response lang s =
     (if language_given lang then handleTextSubmit_failed s
      else speak KText response (addMessage Assistant response (s\<lparr>jarvisPhase := Speaking\<rparr>)))"

text \<open>The code after each \<open>await speakResponse(...)\<close>.\<close>

fun resume :: "kont \<Rightarrow> engine \<Rightarrow> engine" where
  "resume KApology s =
     (if shouldContinueRef s
      then setTimeout TRestart 500 (s\<lparr>jarvisPhase := Listening, isListening := True\<rparr>)
      else s\<lparr>jarvisPhase := Idle, isListening := False\<rparr>)"
| "resume KReply s =
     (if shouldContinueRef s
      then setTimeout TRestart 500 (s\<lparr>jarvisPhase := Listening, isListening := True\<rparr>)
      else s\<lparr>jarvisPhase := Idle, isListening := False\<rparr>)"
| "resume KError s =
     (if shouldContinueRef s
      then setTimeout TRestart 500 (s\<lparr>jarvisPhase := Listening\<rparr>)
      else s\<lparr>jarvisPhase := Idle\<rparr>)"
| "resume KSwitchActive s =
     (if shouldContinueRef s
      then setTimeout TRestart 500 (s\<lparr>jarvisPhase := Listening, isListening := True\<rparr>)
      else s\<lparr>jarvisPhase := Idle\<rparr>)"
| "resume KSwitchIdle s = s\<lparr>jarvisPhase := Idle\<rparr>"
| "resume KGreeting s = startRecording (s\<lparr>jarvisPhase := Listening, isListening := True\<rparr>)"
| "resume KMicError s =
     s\<lparr>conversationActive := False, shouldContinueRef := False, jarvisPhase := Idle\<rparr>"
| "resume KText s = s\<lparr>jarvisPhase := Idle, isLoading := False\<rparr>"

fun fire :: "timer \<Rightarrow> engine \<Rightarrow> engine" where
  "fire TRestartIfContinue s = (if shouldContinueRef s then startRecording s else s)"
| "fire TRestart s = startRecording s"
| "fire (TMaxTime r) s = max_time_reached s"

fun run_job :: "job \<Rightarrow> engine \<Rightarrow> engine" where
  "run_job (JSpeakDone c) s = s\<lparr>player := speak_return c (player s)\<rparr>"
| "run_job (JCont k) s = resume k s"

subsection \<open>Events\<close>

datatype event =
    MicClick
  | NavClick nav_id
  | TextSubmit string
  | Micro                            \<comment> \<open>the oldest promise job runs\<close>
  | Advance nat                      \<comment> \<open>milliseconds pass\<close>
  | Timeout nat                      \<comment> \<open>the i-th pending timer fires\<close>
  | Frame nat "nat list"             \<comment> \<open>an animation frame callback runs\<close>
  | GumOk | GumFail                  \<comment> \<open>a getUserMedia promise settles\<close>
  | DataAvailable nat nat            \<comment> \<open>a recorder delivers a chunk\<close>
  | RecorderStop nat nat             \<comment> \<open>the queued stop of a recorder: last chunk, then stop\<close>
  | TranscribeDone string bool | TranscribeFail
  | ChatDone origin string "string option" | ChatFail origin
  | FetchSettle nat fetch_result     \<comment> \<open>api.getTtsAudio of a speak call settles\<close>
  | AudioFired nat audio_event

text \<open>A task runs only when no promise job is pending; \<open>None\<close> means the event cannot
  happen in this state. Clicks and submits reach the instance only while it is mounted;
  every other callback runs whether it is mounted or not. A timer fires no earlier than
  its delay. An aborted fetch may reject with AbortError; the model also lets it settle
  any other way.\<close>

fun task :: "event \<Rightarrow> engine \<Rightarrow> engine option" where
  "task MicClick s = (if mounted s then Some (handleMicClick s) else None)"
| "task (NavClick nid) s = (if mounted s then Some (rerender (handleNavClick nid s)) else None)"
| "task (TextSubmit msg) s = (if mounted s then Some (handleTextSubmit msg s) else None)"
| "task Micro s = None"
| "task (Advance d) s = Some (s\<lparr>clock := clock s + d\<rparr>)"
| "task (Timeout i) s =
     (if i < length (timers s) \<and> fst (timers s ! i) \<le> clock s
      then Some (fire (snd (timers s ! i))
                   (s\<lparr>timers := take i (timers s) @ drop (Suc i) (timers s)\<rparr>))
      else None)"
| "task (Frame f dataArray) s =
     (if f \<in> set (frames s)
      then Some (monitorAudio dataArray (s\<lparr>frames := removeAll f (frames s)\<rparr>))
      else None)"
| "task GumOk s =
     (if gum_pending s > 0
      then Some (startRecording_granted (s\<lparr>gum_pending := gum_pending s - 1\<rparr>))
      else None)"
| "task GumFail s =
     (if gum_pending s > 0
      then Some (startRecording_denied (s\<lparr>gum_pending := gum_pending s - 1\<rparr>))
      else None)"
| "task (DataAvailable r sz) s =
     (if r < length (sessions s) \<and> rec_state (sessions s ! r) = Recording
      then Some (ondataavailable sz s)
      else None)"
| "task (RecorderStop r sz) s =
     (if r < length (sessions s) \<and> stop_queued (sessions s ! r)
      then Some (onstop (ondataavailable sz
                   (upd_session r (\<lambda>x. x\<lparr>stop_queued := False\<rparr>) s)))
      else None)"
| "task (TranscribeDone txt success) s =
     (if transcribing s > 0
      then Some (processAudio_transcribed txt success (s\<lparr>transcribing := transcribing s - 1\<rparr>))
      else None)"
| "task TranscribeFail s =
     (if transcribing s > 0
      then Some (processAudio_failed (s\<lparr>transcribing := transcribing s - 1\<rparr>))
      else None)"
| "task (ChatDone og response lang) s =
     (if og \<in> set (chatting s)
      then Some ((case og of Voice \<Rightarrow> processAudio_replied response lang
                  | Typed \<Rightarrow> handleTextSubmit_replied response lang)
                   (s\<lparr>chatting := remove1 og (chatting s)\<rparr>))
      else None)"
| "task (ChatFail og) s =
     (if og \<in> set (chatting s)
      then Some ((case og of Voice \<Rightarrow> processAudio_failed | Typed \<Rightarrow> handleTextSubmit_failed)
                   (s\<lparr>chatting := remove1 og (chatting s)\<rparr>))
      else None)"
| "task (FetchSettle c r) s =
     (if c < length (calls (player s)) \<and> c_status (calls (player s) ! c) = InFlight \<and>
         (r = FetchAbort \<longrightarrow> c_aborted (calls (player s) ! c))
      then Some (s\<lparr>player := speak_fetched c r (player s)\<rparr>)
      else None)"
| "task (AudioFired c ev) s =
     (if c < length (calls (player s)) \<and> c_played (calls (player s) ! c) \<and>
         (ev = Ended \<longrightarrow> c_audible (calls (player s) ! c))
      then Some (s\<lparr>player := audio_fired c ev (player s)\<rparr>)
      else None)"

definition step :: "event \<Rightarrow> engine \<Rightarrow> engine option" where
  "step e s =
     (case jobs (player s) of
        [] \<Rightarrow> task e s
      | j # js \<Rightarrow>
          if e = Micro then Some (run_job j (s\<lparr>player := (player s)\<lparr>jobs := js\<rparr>\<rparr>)) else None)"

fun run :: "event list \<Rightarrow> engine \<Rightarrow> engine option" where
  "run [] s = Some s"
| "run (e # es) s = (case step e s of None \<Rightarrow> None | Some s' \<Rightarrow> run es s')"

text \<open>ChatView when it has been mounted on a store: the refs and the component state at
  their initial values, the mode-switch callback registered. The store is left as it is:
  its phase is not reset.\<close>

definition mountChatView :: "shared \<Rightarrow> engine" where
  "mountChatView st =
     \<lparr>jarvisPhase = jarvisPhase st, isListening = isListening st, tts_setting = tts_setting st,
      currentMode = currentMode st, currentView = currentView st, robotName = robotName st,
      messages = messages st, onModeSwitch = True, clock = clock st,
      ttsEnabled = tts_setting st, mounted = True,
      conversationActive = False, audioLevel = 0, isLoading = False,
      hasGreetedRef = False, shouldContinueRef = False, mediaRecorderRef = None,
      audioChunksRef = [], streamRef = None, audioContextRef = None, analyserRef = None,
      silenceStartRef = None, speechDetectedRef = False, rafIdRef = None,
      isRecordingRef = False, currentModeRef = currentMode st,
      player = \<lparr>ttsAudioRef = None, ttsUrlRef = None, ttsAbortRef = None, ttsSeqRef = 0,
                 ttsResolveRef = None, calls = [], jobs = []\<rparr>,
      sessions = [], gum_pending = 0, frames = [], next_frame = 1, timers = [],
      transcribing = 0, chatting = [], api_log = []\<rparr>"

text \<open>The first ChatView, on the store's defaults.\<close>

definition initial :: "bool \<Rightarrow> string \<Rightarrow> nat \<Rightarrow> engine" where
  "initial enabled name now =
     mountChatView
       \<lparr>jarvisPhase = Idle, isListening = False, tts_setting = enabled, currentMode = Chat,
        currentView = ChatView, robotName = name, messages = [], onModeSwitch = False,
        clock = now\<rparr>"

inductive reachable :: "engine \<Rightarrow> bool" where
  reach_initial: "reachable (initial enabled name now)"
| reach_step: "reachable s \<Longrightarrow> step e s = Some s' \<Longrightarrow> reachable s'"

subsection \<open>App: the store and the instances of ChatView\<close>

text \<open>The store as an instance left it, and an instance looking at the store.\<close>

definition save :: "engine \<Rightarrow> shared" where
  "save s =
     \<lparr>jarvisPhase = jarvisPhase s, isListening = isListening s, tts_setting = tts_setting s,
      currentMode = currentMode s, currentView = currentView s, robotName = robotName s,
      messages = messages s, onModeSwitch = onModeSwitch s, clock = clock s\<rparr>"

definition load :: "shared \<Rightarrow> engine \<Rightarrow> engine" where
  "load st s =
     s\<lparr>jarvisPhase := jarvisPhase st, isListening := isListening st,
       tts_setting := tts_setting st, currentMode := currentMode st,
       currentView := currentView st, robotName := robotName st, messages := messages st,
       onModeSwitch := onModeSwitch st, clock := clock st\<rparr>"

text \<open>\<open>chats\<close> holds every ChatView that App has mounted, oldest first; only the last one
  can be mounted.\<close>

record app =
  common :: shared
  chats :: "engine list"

definition chat :: "app \<Rightarrow> nat \<Rightarrow> engine" where
  "chat a i = load (common a) (chats a ! i)"

text \<open>App renders ChatView when the view is the chat view and no ChatView is mounted.\<close>

definition render_app :: "app \<Rightarrow> app" where
  "render_app a =
     (if currentView (common a) = ChatView
      then \<lparr>common = (common a)\<lparr>onModeSwitch := True\<rparr>,
            chats = chats a @ [mountChatView (common a)]\<rparr>
      else a)"

text \<open>The promise job queue is one for the whole page: a task starts only when no instance
  has a job pending.\<close>

definition quiescent :: "app \<Rightarrow> bool" where
  "quiescent a = list_all (\<lambda>s. jobs (player s) = []) (chats a)"

datatype app_event =
    On nat event          \<comment> \<open>an event of the i-th ChatView\<close>
  | BackToChat            \<comment> \<open>SettingsView and RegisterView: setCurrentView('chat')\<close>
  | SidebarClick nav_id   \<comment> \<open>handleNavClick while SettingsView is shown\<close>
  | ToggleTts             \<comment> \<open>SettingsView: setTtsEnabled(!ttsEnabled)\<close>
  | RegisterNow           \<comment> \<open>SettingsView: setCurrentView('register')\<close>

text \<open>While SettingsView is shown no ChatView is mounted and onModeSwitch is null, so
  handleNavClick writes the store only: it runs here on the store and the ChatView that App
  would mount, of which only the store is kept.\<close>

fun app_step :: "app_event \<Rightarrow> app \<Rightarrow> app option" where
  "app_step (On i e) a =
     (if i < length (chats a) \<and> (e = Micro \<or> quiescent a)
      then (case step e (chat a i) of None \<Rightarrow> None
            | Some s' \<Rightarrow> Some \<lparr>common = save s', chats = (chats a)[i := s']\<rparr>)
      else None)"
| "app_step BackToChat a =
     (if currentView (common a) \<noteq> ChatView \<and> quiescent a
      then Some (render_app (a\<lparr>common := (common a)\<lparr>currentView := ChatView\<rparr>\<rparr>))
      else None)"
| "app_step (SidebarClick nid) a =
     (if currentView (common a) = SettingsView \<and> quiescent a
      then Some (render_app
             (a\<lparr>common := save (handleNavClick nid (load (common a) (mountChatView (common a))))\<rparr>))
      else None)"
| "app_step ToggleTts a =
     (if currentView (common a) = SettingsView \<and> quiescent a
      then Some (a\<lparr>common := (common a)\<lparr>tts_setting := \<not> tts_setting (common a)\<rparr>\<rparr>)
      else None)"
| "app_step RegisterNow a =
     (if currentView (common a) = SettingsView \<and> quiescent a
      then Some (a\<lparr>common := (common a)\<lparr>currentView := RegisterView\<rparr>\<rparr>)
      else None)"

fun app_run :: "app_event list \<Rightarrow> app \<Rightarrow> app option" where
  "app_run [] a = Some a"
| "app_run (e # es) a = (case app_step e a of None \<Rightarrow> None | Some a' \<Rightarrow> app_run es a')"

definition app_initial :: "bool \<Rightarrow> string \<Rightarrow> nat \<Rightarrow> app" where
  "app_initial enabled name now =
     \<lparr>common = save (initial enabled name now), chats = [initial enabled name now]\<rparr>"

inductive app_reachable :: "app \<Rightarrow> bool" where
  app_start: "app_reachable (app_initial enabled name now)"
| app_next: "app_reachable a \<Longrightarrow> app_step e a = Some a' \<Longrightarrow> app_reachable a'"

subsection \<open>The analysis loop\<close>



subsection \<open>Invariant of the player\<close>

text \<open>The speak calls whose resumption is queued.\<close>

fun pending_returns :: "job list \<Rightarrow> nat list" where
  "pending_returns [] = []"
| "pending_returns (JSpeakDone c # js) = c # pending_returns js"
| "pending_returns (JCont k # js) = pending_returns js"

text \<open>What holds of the i-th speak call between two tasks: its sequence number is its
  position; a call that awaits its fetch and was not aborted is the one ttsAbortRef holds;
  a call that is playing is the newest call and the one all four refs hold; only a playing
  call is audible or owns a blob URL.\<close>

definition call_ok :: "tts \<Rightarrow> nat \<Rightarrow> speak_call \<Rightarrow> bool" where
  "call_ok t i x \<longleftrightarrow>
     c_seq x = Suc i \<and>
     (c_status x = InFlight \<longrightarrow>
        (\<not> c_aborted x \<longrightarrow> ttsAbortRef t = Some i) \<and> \<not> c_played x \<and> \<not> c_handlers x) \<and>
     (c_status x = Playing \<longrightarrow>
        ttsResolveRef t = Some i \<and> ttsAudioRef t = Some i \<and> ttsUrlRef t = Some i \<and>
        Suc i = length (calls t) \<and> c_handlers x) \<and>
     (c_audible x \<longrightarrow> c_status x = Playing) \<and>
     (c_url_live x \<longrightarrow> c_status x = Playing) \<and>
     (c_status x = Resolved \<longleftrightarrow> i \<in> set (pending_returns (jobs t)))"

definition ref_ok :: "tts \<Rightarrow> nat option \<Rightarrow> bool" where
  "ref_ok t r \<longleftrightarrow> (\<forall>i. r = Some i \<longrightarrow> i < length (calls t) \<and> c_status (calls t ! i) = Playing)"

definition tts_inv :: "tts \<Rightarrow> bool" where
  "tts_inv t \<longleftrightarrow>
     ttsSeqRef t = length (calls t) \<and>
     (\<forall>i < length (calls t). call_ok t i (calls t ! i)) \<and>
     ref_ok t (ttsAudioRef t) \<and> ref_ok t (ttsUrlRef t) \<and> ref_ok t (ttsResolveRef t) \<and>
     (\<forall>i. ttsAbortRef t = Some i \<longrightarrow> Suc i = length (calls t)) \<and>
     distinct (pending_returns (jobs t)) \<and>
     (\<forall>c \<in> set (pending_returns (jobs t)). c < length (calls t))"

text \<open>What one task can do to the player: the operations of the player, applied to it
  in some order.\<close>

inductive tts_rel :: "bool \<Rightarrow> tts \<Rightarrow> tts \<Rightarrow> bool" for en :: bool and t :: tts where
  same: "tts_rel en t t"
| stop: "tts_rel en t u \<Longrightarrow> tts_rel en t (stopTtsNow u)"
| speak: "tts_rel en t u \<Longrightarrow> tts_rel en t (speakResponse en k msg u)"
| fetched: "tts_rel en t u \<Longrightarrow> c < length (calls u) \<Longrightarrow> c_status (calls u ! c) = InFlight \<Longrightarrow>
     tts_rel en t (speak_fetched c r u)"
| audio: "tts_rel en t u \<Longrightarrow> c < length (calls u) \<Longrightarrow> tts_rel en t (audio_fired c ev u)"
| pop_done: "tts_rel en t u \<Longrightarrow> jobs u = JSpeakDone c # js \<Longrightarrow>
     tts_rel en t (speak_return c (u\<lparr>jobs := js\<rparr>))"
| pop_cont: "tts_rel en t u \<Longrightarrow> jobs u = JCont k # js \<Longrightarrow> tts_rel en t (u\<lparr>jobs := js\<rparr>)"

definition engine_inv :: "engine \<Rightarrow> bool" where
  "engine_inv s \<longleftrightarrow> tts_inv (player s) \<and> (ttsEnabled s \<or> calls (player s) = [])"

text \<open>A call after a newer speak call has been started, compared with the call before.\<close>

definition retired :: "speak_call \<Rightarrow> speak_call \<Rightarrow> bool" where
  "retired x y \<longleftrightarrow>
     \<not> c_audible y \<and> \<not> c_url_live y \<and> c_status y \<noteq> Playing \<and>
     c_kont y = c_kont x \<and> c_played y = c_played x \<and>
     (c_status x = InFlight \<longrightarrow> c_status y = InFlight \<and> c_aborted y) \<and>
     (c_status x = Playing \<longrightarrow> c_status y = Resolved) \<and>
     (c_status x = Resolved \<longrightarrow> c_status y = Resolved) \<and>
     (c_status x = Returned \<longrightarrow> c_status y = Returned)"

text \<open>The two ways a task starts a speak call while text-to-speech is on: speakResponse,
  or stopTtsNow and then speakResponse (handleModeSwitch).\<close>

definition speaks :: "tts \<Rightarrow> tts \<Rightarrow> bool" where
  "speaks t u \<longleftrightarrow>
     (\<exists>k msg. u = speakResponse True k msg t \<or> u = speakResponse True k msg (stopTtsNow t))"


subsection \<open>States of the capture session\<close>



text \<open>No capture session holds the microphone: every stream has ended and every recorder
  is inactive.\<close>

definition released :: "engine \<Rightarrow> bool" where
  "released s \<longleftrightarrow>
     (\<forall>r < length (sessions s).
        \<not> stream_live (sessions s ! r) \<and> rec_state (sessions s ! r) = Inactive)"

text \<open>No call of startConversation is suspended at its \<open>await speakResponse(greeting)\<close>: every
  speak call made for the first greeting has returned and its resumption has run.\<close>

definition greeting_returned :: "tts \<Rightarrow> bool" where
  "greeting_returned t \<longleftrightarrow>
     (\<forall>i < length (calls t).
        c_kont (calls t ! i) = KGreeting \<longrightarrow> c_status (calls t ! i) = Returned) \<and>
     JCont KGreeting \<notin> set (jobs t)"


text \<open>The conversation has been stopped and nothing can start a capture session again
  without the user.\<close>

definition halted :: "engine \<Rightarrow> bool" where
  "halted s \<longleftrightarrow>
     \<not> shouldContinueRef s \<and> \<not> isRecordingRef s \<and> gum_pending s = 0 \<and>
     (\<forall>x \<in> set (timers s). snd x \<noteq> TRestart) \<and> greeting_returned (player s) \<and>
     released s \<and> jarvisPhase s \<noteq> Listening"

subsection \<open>Scenarios\<close>

text \<open>A first turn with text-to-speech on: the user clicks the microphone, the greeting is
  fetched and played to its end, the microphone is granted at 1000 ms, and the user is
  heard at 1100 ms.\<close>

definition greeted :: "event list" where
  "greeted = [MicClick, FetchSettle 0 FetchOk, AudioFired 0 Ended, Micro, Micro, GumOk]"


text \<open>A turn that ends by trailing silence, a transcription that returns nothing, the
  apology, and the automatic restart: the second session starts at 4800 ms, while the
  maximum-duration timer of the first session (due at 21000 ms) is still pending.\<close>

definition restarted_events :: "event list" where
  "restarted_events = greeted @
     [Advance 100, Frame 1 [255], Advance 100, Frame 2 [0], Advance 1600, Frame 3 [0],
      RecorderStop 0 100, TranscribeDone [] False, FetchSettle 1 FetchOk, Advance 1500,
      AudioFired 1 Ended, Micro, Micro, Advance 500, Timeout 1, GumOk, Advance 16200]"

definition restarted :: engine where
  "restarted = the (run restarted_events (initial True ''VV'' 1000))"

definition cut_short :: engine where
  "cut_short = the (step (Timeout 0) restarted)"

text \<open>A mode switch while listening in continuous mode: the stop event of the recorder
  sets the 300 ms restart, which starts a second session while the greeting plays; after
  the greeting, handleModeSwitch sets its 500 ms restart, which starts a third session
  while the second is recording. Then the user stops the conversation and every pending
  callback runs.\<close>

definition doubled_events :: "event list" where
  "doubled_events = greeted @
     [NavClick (Mode Story), RecorderStop 0 0, FetchSettle 1 FetchOk, Advance 300, Timeout 1, GumOk,
      Advance 2000, AudioFired 1 Ended, Micro, Micro, Advance 500, Timeout 2, GumOk]"

definition doubled :: engine where
  "doubled = the (run doubled_events (initial True ''VV'' 1000))"

definition leaked_events :: "event list" where
  "leaked_events = doubled_events @
     [MicClick, RecorderStop 2 0, Frame 2 [0], Advance 30000, Timeout 0, Timeout 0, Timeout 0]"

definition leaked :: engine where
  "leaked = the (run leaked_events (initial True ''VV'' 1000))"

text \<open>The user stops the conversation while getUserMedia is still pending; the microphone is
  granted afterwards; 20 s later the maximum-duration timer fires and the last animation
  frame runs.\<close>

definition hot_mic_events :: "event list" where
  "hot_mic_events =
     [MicClick, FetchSettle 0 FetchOk, AudioFired 0 Ended, Micro, Micro, MicClick, GumOk,
      Advance 20000, Timeout 0, Frame 1 [0]]"

definition hot_mic :: engine where
  "hot_mic = the (run hot_mic_events (initial True ''VV'' 1000))"















text \<open>The mode is switched while the first greeting of a conversation plays: the state
  at the end of the click, the state once the promise jobs of the click have run, and the
  state when the microphone has been granted and the greeting of the new mode has been
  fetched.\<close>

definition greeting_stopped :: engine where
  "greeting_stopped =
     the (run [MicClick, FetchSettle 0 FetchOk, NavClick (Mode Story)] (initial True ''VV'' 1000))"

definition greeting_switched_events :: "event list" where
  "greeting_switched_events =
     [MicClick, FetchSettle 0 FetchOk, NavClick (Mode Story), Micro, Micro]"

definition greeting_switched :: engine where
  "greeting_switched = the (run greeting_switched_events (initial True ''VV'' 1000))"

definition overheard :: engine where
  "overheard = the (run (greeting_switched_events @ [GumOk, FetchSettle 1 FetchOk])
                      (initial True ''VV'' 1000))"

text \<open>The same, in the app: the first greeting plays, and the click on Story.\<close>

definition greeting_playing :: app where
  "greeting_playing =
     the (app_run [On 0 MicClick, On 0 (FetchSettle 0 FetchOk)] (app_initial True ''VV'' 1000))"

definition greeting_cut :: engine where
  "greeting_cut = the (step (NavClick (Mode Story)) (chat greeting_playing 0))"

text \<open>The first greeting plays when the user opens the settings and comes back; in the new
  ChatView a click on Story speaks the greeting of the mode, and its fetch lands.\<close>

definition remount_events :: "app_event list" where
  "remount_events =
     [On 0 MicClick, On 0 (FetchSettle 0 FetchOk), On 0 (NavClick Settings), BackToChat,
      On 1 (NavClick (Mode Story)), On 1 (FetchSettle 0 FetchOk)]"

definition remounted :: app where
  "remounted = the (app_run remount_events (app_initial True ''VV'' 1000))"

section \<open>Evaluation and frame lemmas\<close>

lemmas player_defs =
  speakResponse_def stopTtsNow_def abort_request_def stop_audio_def release_url_def
  resolve_pending_def speak_fetched_def upd_call_def audio_fired_def cleanupAndResolve_def
  resolve_call_def speak_return_def

lemmas capture_defs =
  requestAnimationFrame_def setTimeout_def monitorAudio_def getAudioLevel_def
  SILENCE_THRESHOLD_def SILENCE_DURATION_def MAX_RECORD_TIME_def truthy_def cancel_frame_def
  recording_def stop_recorder_def stop_tracks_def stopRecording_def upd_session_def
  max_time_reached_def ondataavailable_def startRecording_def startRecording_granted_def
  startRecording_denied_def

lemmas orchestrator_defs =
  speak_def addMessage_def first_greeting_def processAudio_def onstop_def
  processAudio_transcribed_def processAudio_replied_def processAudio_failed_def
  language_given_def handleModeSwitch_def handleNavClick_def handleTextSubmit_def
  handleTextSubmit_replied_def handleTextSubmit_failed_def hearing_apology_def
  failure_apology_def handleMicClick_def startConversation_def stopConversation_def

lemmas engine_defs = step_def initial_def mountChatView_def unmountChatView_def rerender_def greeted_def
  player_defs capture_defs orchestrator_defs Let_def

lemmas handler_defs = capture_defs orchestrator_defs Let_def

subsection \<open>The player keeps its invariant\<close>

lemma pending_returns_append [simp]:
  "pending_returns (xs @ ys) = pending_returns xs @ pending_returns ys"
  by (induction xs rule: pending_returns.induct) auto

lemma upd_call_simps [simp]:
  "ttsAbortRef (upd_call c f t) = ttsAbortRef t"
  "ttsAudioRef (upd_call c f t) = ttsAudioRef t"
  "ttsUrlRef (upd_call c f t) = ttsUrlRef t"
  "ttsResolveRef (upd_call c f t) = ttsResolveRef t"
  "ttsSeqRef (upd_call c f t) = ttsSeqRef t"
  "jobs (upd_call c f t) = jobs t"
  "length (calls (upd_call c f t)) = length (calls t)"
  by (simp_all add: upd_call_def)

lemma upd_call_nth:
  "i < length (calls t) \<Longrightarrow> calls (upd_call c f t) ! i = (if i = c then f (calls t ! i) else calls t ! i)"
  by (simp add: upd_call_def nth_list_update)

lemma resolve_call_simps [simp]:
  "ttsAbortRef (resolve_call c t) = ttsAbortRef t"
  "ttsAudioRef (resolve_call c t) = ttsAudioRef t"
  "ttsUrlRef (resolve_call c t) = ttsUrlRef t"
  "ttsResolveRef (resolve_call c t) = ttsResolveRef t"
  "ttsSeqRef (resolve_call c t) = ttsSeqRef t"
  "length (calls (resolve_call c t)) = length (calls t)"
  by (simp_all add: resolve_call_def)

lemma resolve_call_jobs:
  "jobs (resolve_call c t) =
     jobs t @ (if c < length (calls t) \<and> c_status (calls t ! c) = Playing then [JSpeakDone c] else [])"
  by (simp add: resolve_call_def)

lemma resolve_call_nth:
  "i < length (calls t) \<Longrightarrow>
   calls (resolve_call c t) ! i =
     (if i = c \<and> c_status (calls t ! i) = Playing then (calls t ! i)\<lparr>c_status := Resolved\<rparr>
      else calls t ! i)"
  by (auto simp add: resolve_call_def upd_call_nth)

lemmas stage_defs = abort_request_def stop_audio_def release_url_def resolve_pending_def

lemma stage_simps [simp]:
  "ttsAbortRef (abort_request t) = None"
  "ttsAudioRef (abort_request t) = ttsAudioRef t"
  "ttsUrlRef (abort_request t) = ttsUrlRef t"
  "ttsResolveRef (abort_request t) = ttsResolveRef t"
  "ttsSeqRef (abort_request t) = ttsSeqRef t"
  "jobs (abort_request t) = jobs t"
  "length (calls (abort_request t)) = length (calls t)"
  "ttsAbortRef (stop_audio t) = ttsAbortRef t"
  "ttsAudioRef (stop_audio t) = None"
  "ttsUrlRef (stop_audio t) = ttsUrlRef t"
  "ttsResolveRef (stop_audio t) = ttsResolveRef t"
  "ttsSeqRef (stop_audio t) = ttsSeqRef t"
  "jobs (stop_audio t) = jobs t"
  "length (calls (stop_audio t)) = length (calls t)"
  "ttsAbortRef (release_url t) = ttsAbortRef t"
  "ttsAudioRef (release_url t) = ttsAudioRef t"
  "ttsUrlRef (release_url t) = None"
  "ttsResolveRef (release_url t) = ttsResolveRef t"
  "ttsSeqRef (release_url t) = ttsSeqRef t"
  "jobs (release_url t) = jobs t"
  "length (calls (release_url t)) = length (calls t)"
  "ttsAbortRef (resolve_pending t) = ttsAbortRef t"
  "ttsAudioRef (resolve_pending t) = ttsAudioRef t"
  "ttsUrlRef (resolve_pending t) = ttsUrlRef t"
  "ttsResolveRef (resolve_pending t) = None"
  "ttsSeqRef (resolve_pending t) = ttsSeqRef t"
  "length (calls (resolve_pending t)) = length (calls t)"
  by (simp_all add: stage_defs split: option.splits)

lemma stage_nth:
  assumes "i < length (calls t)"
  shows "calls (abort_request t) ! i =
           (if ttsAbortRef t = Some i then (calls t ! i)\<lparr>c_aborted := True\<rparr> else calls t ! i)"
    and "calls (stop_audio t) ! i =
           (if ttsAudioRef t = Some i then (calls t ! i)\<lparr>c_handlers := False, c_audible := False\<rparr>
            else calls t ! i)"
    and "calls (release_url t) ! i =
           (if ttsUrlRef t = Some i then (calls t ! i)\<lparr>c_url_live := False\<rparr> else calls t ! i)"
    and "calls (resolve_pending t) ! i =
           (if ttsResolveRef t = Some i \<and> c_status (calls t ! i) = Playing
            then (calls t ! i)\<lparr>c_status := Resolved\<rparr> else calls t ! i)"
  using assms by (auto simp add: stage_defs upd_call_nth resolve_call_nth split: option.splits)

lemma stage_status:
  assumes "i < length (calls t)"
  shows "c_status (calls (abort_request t) ! i) = c_status (calls t ! i)"
    and "c_status (calls (stop_audio t) ! i) = c_status (calls t ! i)"
    and "c_status (calls (release_url t) ! i) = c_status (calls t ! i)"
  using assms by (simp_all add: stage_nth)

lemma resolve_pending_jobs:
  "jobs (resolve_pending t) = jobs t @
     (case ttsResolveRef t of None \<Rightarrow> []
      | Some c \<Rightarrow> if c < length (calls t) \<and> c_status (calls t ! c) = Playing then [JSpeakDone c] else [])"
  by (simp add: resolve_pending_def resolve_call_jobs split: option.splits)

lemma stop_refs [simp]:
  "ttsAbortRef (stopTtsNow t) = None" "ttsAudioRef (stopTtsNow t) = None"
  "ttsUrlRef (stopTtsNow t) = None" "ttsResolveRef (stopTtsNow t) = None"
  "ttsSeqRef (stopTtsNow t) = ttsSeqRef t" "length (calls (stopTtsNow t)) = length (calls t)"
  by (simp_all add: stopTtsNow_def)

lemma stop_call:
  assumes "i < length (calls t)"
  shows "c_seq (calls (stopTtsNow t) ! i) = c_seq (calls t ! i)"
    and "c_text (calls (stopTtsNow t) ! i) = c_text (calls t ! i)"
    and "c_kont (calls (stopTtsNow t) ! i) = c_kont (calls t ! i)"
    and "c_played (calls (stopTtsNow t) ! i) = c_played (calls t ! i)"
    and "c_aborted (calls (stopTtsNow t) ! i) = (c_aborted (calls t ! i) \<or> ttsAbortRef t = Some i)"
    and "c_audible (calls (stopTtsNow t) ! i) = (c_audible (calls t ! i) \<and> ttsAudioRef t \<noteq> Some i)"
    and "c_handlers (calls (stopTtsNow t) ! i) = (c_handlers (calls t ! i) \<and> ttsAudioRef t \<noteq> Some i)"
    and "c_url_live (calls (stopTtsNow t) ! i) = (c_url_live (calls t ! i) \<and> ttsUrlRef t \<noteq> Some i)"
    and "c_status (calls (stopTtsNow t) ! i) =
           (if ttsResolveRef t = Some i \<and> c_status (calls t ! i) = Playing then Resolved
            else c_status (calls t ! i))"
  using assms by (simp_all add: stopTtsNow_def stage_nth)

lemma stop_jobs:
  "jobs (stopTtsNow t) = jobs t @
     (case ttsResolveRef t of None \<Rightarrow> []
      | Some c \<Rightarrow> if c < length (calls t) \<and> c_status (calls t ! c) = Playing then [JSpeakDone c] else [])"
  by (auto simp add: stopTtsNow_def resolve_pending_jobs stage_status split: option.splits)

lemma stop_pending:
  "ref_ok t (ttsResolveRef t) \<Longrightarrow>
   pending_returns (jobs (stopTtsNow t)) =
     pending_returns (jobs t) @ (case ttsResolveRef t of None \<Rightarrow> [] | Some c \<Rightarrow> [c])"
  by (simp add: stop_jobs ref_ok_def split: option.splits)

lemma inv_stop_call:
  assumes i: "i < length (calls t)" and ok: "call_ok t i (calls t ! i)"
    and r: "ref_ok t (ttsResolveRef t)"
  shows "call_ok (stopTtsNow t) i (calls (stopTtsNow t) ! i)"
proof (cases "ttsResolveRef t = Some i")
  case True
  with r have "c_status (calls t ! i) = Playing" by (simp add: ref_ok_def)
  with True ok i r show ?thesis
    by (simp add: call_ok_def stop_call stop_pending)
next
  case False
  with ok i r show ?thesis
    by (auto simp add: call_ok_def stop_call stop_pending split: option.splits)
qed

lemma inv_stop: 
  assumes "tts_inv t" shows "tts_inv (stopTtsNow t)"
proof -
  from assms have r: "ref_ok t (ttsResolveRef t)" and d: "distinct (pending_returns (jobs t))"
    and all: "\<forall>i < length (calls t). call_ok t i (calls t ! i)"
    and s: "ttsSeqRef t = length (calls t)"
    by (simp_all add: tts_inv_def)
  have "distinct (pending_returns (jobs (stopTtsNow t)))"
  proof (cases "ttsResolveRef t")
    case None
    with r d show ?thesis by (simp add: stop_pending)
  next
    case (Some c)
    with r have "c < length (calls t)" "c_status (calls t ! c) = Playing" by (simp_all add: ref_ok_def)
    with all have "c \<notin> set (pending_returns (jobs t))" by (auto simp: call_ok_def)
    with Some r d show ?thesis by (simp add: stop_pending)
  qed
  moreover have "\<forall>i < length (calls (stopTtsNow t)). call_ok (stopTtsNow t) i (calls (stopTtsNow t) ! i)"
    using all r by (simp add: inv_stop_call)
  moreover have "\<forall>c \<in> set (pending_returns (jobs (stopTtsNow t))). c < length (calls (stopTtsNow t))"
    using assms r by (auto simp add: stop_pending tts_inv_def ref_ok_def split: option.splits)
  ultimately show ?thesis using s by (simp add: tts_inv_def ref_ok_def)
qed

lemma stop_quiet:
  assumes "tts_inv t" "i < length (calls t)"
  shows "c_status (calls (stopTtsNow t) ! i) \<noteq> Playing"
    and "c_status (calls (stopTtsNow t) ! i) = InFlight \<longrightarrow> c_aborted (calls (stopTtsNow t) ! i)"
proof -
  have "tts_inv (stopTtsNow t)" using assms(1) by (rule inv_stop)
  then have "call_ok (stopTtsNow t) i (calls (stopTtsNow t) ! i)"
    using assms(2) by (simp add: tts_inv_def)
  then show "c_status (calls (stopTtsNow t) ! i) \<noteq> Playing"
    and "c_status (calls (stopTtsNow t) ! i) = InFlight \<longrightarrow> c_aborted (calls (stopTtsNow t) ! i)"
    by (auto simp add: call_ok_def)
qed

lemma speak_disabled [simp]: "speakResponse False k txt t = t\<lparr>jobs := jobs t @ [JCont k]\<rparr>"
  by (simp add: speakResponse_def)

lemma call_ok_jobs_cont [simp]: "call_ok (t\<lparr>jobs := jobs t @ [JCont k]\<rparr>) i x = call_ok t i x"
  by (simp add: call_ok_def)

lemma inv_jobs_cont: "tts_inv t \<Longrightarrow> tts_inv (t\<lparr>jobs := jobs t @ [JCont k]\<rparr>)"
  by (simp add: tts_inv_def ref_ok_def)

lemma inv_speak:
  assumes "tts_inv t" shows "tts_inv (speakResponse en k txt t)"
proof (cases en)
  case False
  with assms show ?thesis by (simp add: inv_jobs_cont)
next
  case True
  let ?u = "stopTtsNow t"
  have u: "tts_inv ?u" using assms by (rule inv_stop)
  let ?n = "length (calls ?u)"
  let ?x = "\<lparr>c_text = txt, c_seq = Suc (ttsSeqRef ?u), c_kont = k, c_status = InFlight,
             c_aborted = False, c_audible = False, c_handlers = False,
             c_url_live = False, c_played = False\<rparr>"
  let ?t' = "?u\<lparr>ttsSeqRef := Suc (ttsSeqRef ?u), ttsAbortRef := Some ?n, calls := calls ?u @ [?x]\<rparr>"
  have eq: "speakResponse en k txt t = ?t'" using True by (simp add: speakResponse_def Let_def)
  from u have s: "ttsSeqRef ?u = ?n" and d: "distinct (pending_returns (jobs ?u))"
    and all: "\<forall>i < ?n. call_ok ?u i (calls ?u ! i)"
    by (simp_all add: tts_inv_def)
  from u have b: "\<forall>c \<in> set (pending_returns (jobs ?u)). c < ?n"
    by (simp add: tts_inv_def)
  then have new: "?n \<notin> set (pending_returns (jobs ?u))" by auto
  have "call_ok ?t' i (calls ?t' ! i)" if "i < Suc ?n" for i
  proof (cases "i = ?n")
    case True
    then show ?thesis using s new by (simp add: call_ok_def nth_append)
  next
    case False
    with that have i: "i < length (calls t)" by simp
    have "call_ok ?u i (calls ?u ! i)" using all i by simp
    then show ?thesis using i by (auto simp add: call_ok_def nth_append)
  qed
  then show ?thesis unfolding eq using s d b by (auto simp add: tts_inv_def ref_ok_def less_Suc_eq)
qed

lemma return_simps [simp]:
  "ttsAudioRef (speak_return c t) = ttsAudioRef t"
  "ttsUrlRef (speak_return c t) = ttsUrlRef t"
  "ttsResolveRef (speak_return c t) = ttsResolveRef t"
  "ttsSeqRef (speak_return c t) = ttsSeqRef t"
  "length (calls (speak_return c t)) = length (calls t)"
  "ttsAbortRef (speak_return c t) = (if ttsAbortRef t = Some c then None else ttsAbortRef t)"
  "jobs (speak_return c t) = jobs t @ [JCont (c_kont (calls t ! c))]"
  by (simp_all add: speak_return_def Let_def)

lemma return_nth:
  "i < length (calls t) \<Longrightarrow>
   calls (speak_return c t) ! i =
     (if i = c then (calls t ! i)\<lparr>c_status := Returned\<rparr> else calls t ! i)"
  by (simp add: speak_return_def Let_def upd_call_nth)

text \<open>Returning from a call that is still awaiting its fetch.\<close>

lemma inv_return_inflight:
  assumes "tts_inv t" "c < length (calls t)" "c_status (calls t ! c) = InFlight"
  shows "tts_inv (speak_return c t)"
proof -
  from assms(1) have all: "\<forall>i < length (calls t). call_ok t i (calls t ! i)"
    by (simp add: tts_inv_def)
  have "call_ok (speak_return c t) i (calls (speak_return c t) ! i)" if "i < length (calls t)" for i
  proof -
    have "call_ok t i (calls t ! i)" using all that by simp
    moreover have "call_ok t c (calls t ! c)" using all assms(2) by simp
    ultimately show ?thesis using that assms(3)
      by (auto simp add: call_ok_def return_nth)
  qed
  moreover have "ref_ok (speak_return c t) r" if "ref_ok t r" for r
    using that assms(3) by (auto simp add: ref_ok_def return_nth)
  ultimately show ?thesis using assms(1)
    by (simp add: tts_inv_def)
qed

lemma call_ok_jobs: "pending_returns js = pending_returns (jobs t) \<Longrightarrow> call_ok (t\<lparr>jobs := js\<rparr>) i x = call_ok t i x"
  by (simp add: call_ok_def)

lemma ref_ok_jobs [simp]: "ref_ok (t\<lparr>jobs := js\<rparr>) r = ref_ok t r"
  by (simp add: ref_ok_def)

lemma tts_inv_jobs:
  assumes "pending_returns js = pending_returns (jobs t)"
  shows "tts_inv (t\<lparr>jobs := js\<rparr>) = tts_inv t"
  unfolding tts_inv_def by (simp add: call_ok_jobs[OF assms] assms)

lemma inv_pop_cont:
  assumes "tts_inv t" "jobs t = JCont k # js"
  shows "tts_inv (t\<lparr>jobs := js\<rparr>)"
proof -
  have "pending_returns js = pending_returns (jobs t)" using assms(2) by simp
  then show ?thesis using assms(1) by (simp only: tts_inv_jobs)
qed

lemma inv_return_resolved:
  assumes "tts_inv (t\<lparr>jobs := JSpeakDone c # jobs t\<rparr>)"
  shows "tts_inv (speak_return c t)"
proof -
  let ?t0 = "t\<lparr>jobs := JSpeakDone c # jobs t\<rparr>"
  from assms have all: "\<forall>i < length (calls t). call_ok ?t0 i (calls t ! i)"
    and c: "c < length (calls t)" and d: "c \<notin> set (pending_returns (jobs t))"
    and d2: "distinct (pending_returns (jobs t))" 
    and b: "\<forall>c \<in> set (pending_returns (jobs t)). c < length (calls t)"
    and s: "ttsSeqRef t = length (calls t)"
    and a: "\<forall>i. ttsAbortRef t = Some i \<longrightarrow> Suc i = length (calls t)"
    and r: "ref_ok t (ttsAudioRef t)" "ref_ok t (ttsUrlRef t)" "ref_ok t (ttsResolveRef t)"
    by (simp_all add: tts_inv_def ref_ok_def)
  from all c have okc: "call_ok ?t0 c (calls t ! c)" by simp
  then have st: "c_status (calls t ! c) = Resolved" by (simp add: call_ok_def)
  have "call_ok (speak_return c t) i (calls (speak_return c t) ! i)"
    if "i < length (calls t)" for i
  proof -
    have "call_ok ?t0 i (calls t ! i)" using all that by simp
    then show ?thesis using that d st
      by (auto simp add: call_ok_def return_nth)
  qed
  moreover have "ref_ok (speak_return c t) r" if "ref_ok t r" for r
    using that st by (auto simp add: ref_ok_def return_nth)
  ultimately show ?thesis using d2 b s a r
    by (simp add: tts_inv_def)
qed

lemma inv_return_job:
  assumes "tts_inv t" "jobs t = JSpeakDone c # js"
  shows "tts_inv (speak_return c (t\<lparr>jobs := js\<rparr>))"
proof -
  have "(t\<lparr>jobs := js\<rparr>)\<lparr>jobs := JSpeakDone c # jobs (t\<lparr>jobs := js\<rparr>)\<rparr> = t"
    using assms(2) by simp
  with assms(1) show ?thesis by (intro inv_return_resolved) simp
qed

lemma inv_fetched:
  assumes inv: "tts_inv t" and c: "c < length (calls t)" and st: "c_status (calls t ! c) = InFlight"
  shows "tts_inv (speak_fetched c r t)"
proof (cases "r = FetchOk \<and> c_seq (calls t ! c) = ttsSeqRef t")
  case False
  then have "speak_fetched c r t = speak_return c t"
    by (cases r) (simp_all add: speak_fetched_def)
  then show ?thesis using assms by (simp add: inv_return_inflight)
next
  case True
  let ?t' = "(upd_call c (\<lambda>x. x\<lparr>c_status := Playing, c_url_live := True, c_handlers := True,
                                  c_audible := True, c_played := True\<rparr>) t)
                 \<lparr>ttsUrlRef := Some c, ttsAudioRef := Some c, ttsResolveRef := Some c\<rparr>"
  have eq: "speak_fetched c r t = ?t'" using True by (simp add: speak_fetched_def)
  from inv have all: "\<forall>i < length (calls t). call_ok t i (calls t ! i)"
    and s: "ttsSeqRef t = length (calls t)"
    by (simp_all add: tts_inv_def)
  from all c have okc: "call_ok t c (calls t ! c)" by simp
  with True s have last: "Suc c = length (calls t)" by (simp add: call_ok_def)
  have "call_ok ?t' i (calls ?t' ! i)" if "i < length (calls t)" for i
  proof (cases "i = c")
    case True
    then show ?thesis using okc st last c by (simp add: call_ok_def upd_call_nth)
  next
    case False
    have "call_ok t i (calls t ! i)" using all that by simp
    then show ?thesis using False that last by (auto simp add: call_ok_def upd_call_nth)
  qed
  moreover have "ref_ok ?t' (Some c)" using c by (simp add: ref_ok_def upd_call_nth)
  ultimately show ?thesis unfolding eq using inv by (simp add: tts_inv_def)
qed

lemma cleanup_simps [simp]:
  "ttsAbortRef (cleanupAndResolve c t) = ttsAbortRef t"
  "ttsSeqRef (cleanupAndResolve c t) = ttsSeqRef t"
  "length (calls (cleanupAndResolve c t)) = length (calls t)"
  "ttsResolveRef (cleanupAndResolve c t) = (if ttsResolveRef t = Some c then None else ttsResolveRef t)"
  "ttsAudioRef (cleanupAndResolve c t) = (if ttsAudioRef t = Some c then None else ttsAudioRef t)"
  "ttsUrlRef (cleanupAndResolve c t) = (if ttsUrlRef t = Some c then None else ttsUrlRef t)"
  by (simp_all add: cleanupAndResolve_def Let_def)

lemma cleanup_nth:
  assumes "i < length (calls t)"
  shows "c_status (calls (cleanupAndResolve c t) ! i) =
           (if i = c \<and> c_status (calls t ! i) = Playing then Resolved else c_status (calls t ! i))"
    and "c_url_live (calls (cleanupAndResolve c t) ! i) =
           (c_url_live (calls t ! i) \<and> \<not> (i = c \<and> ttsUrlRef t = Some c))"
    and "c_seq (calls (cleanupAndResolve c t) ! i) = c_seq (calls t ! i)"
    and "c_text (calls (cleanupAndResolve c t) ! i) = c_text (calls t ! i)"
    and "c_kont (calls (cleanupAndResolve c t) ! i) = c_kont (calls t ! i)"
    and "c_aborted (calls (cleanupAndResolve c t) ! i) = c_aborted (calls t ! i)"
    and "c_audible (calls (cleanupAndResolve c t) ! i) = c_audible (calls t ! i)"
    and "c_handlers (calls (cleanupAndResolve c t) ! i) = c_handlers (calls t ! i)"
    and "c_played (calls (cleanupAndResolve c t) ! i) = c_played (calls t ! i)"
  using assms by (auto simp add: cleanupAndResolve_def Let_def resolve_call_nth upd_call_nth)

lemma cleanup_jobs:
  "jobs (cleanupAndResolve c t) =
     jobs t @ (if c < length (calls t) \<and> c_status (calls t ! c) = Playing then [JSpeakDone c] else [])"
  by (auto simp add: cleanupAndResolve_def Let_def resolve_call_jobs upd_call_nth)

lemma inv_cleanup:
  assumes inv: "tts_inv t" and c: "c < length (calls t)" and q: "\<not> c_audible (calls t ! c)"
  shows "tts_inv (cleanupAndResolve c t)"
proof -
  let ?t' = "cleanupAndResolve c t"
  from inv have all: "\<forall>i < length (calls t). call_ok t i (calls t ! i)"
    and s: "ttsSeqRef t = length (calls t)"
    and d: "distinct (pending_returns (jobs t))"
    and b: "\<forall>c \<in> set (pending_returns (jobs t)). c < length (calls t)"
    and a: "\<forall>i. ttsAbortRef t = Some i \<longrightarrow> Suc i = length (calls t)"
    and r: "ref_ok t (ttsAudioRef t)" "ref_ok t (ttsUrlRef t)" "ref_ok t (ttsResolveRef t)"
    by (simp_all add: tts_inv_def)
  from all c have okc: "call_ok t c (calls t ! c)" by simp
  have "call_ok ?t' i (calls ?t' ! i)" if "i < length (calls t)" for i
  proof (cases "i = c")
    case True
    then show ?thesis using okc c q
      by (auto simp add: call_ok_def cleanup_nth cleanup_jobs)
  next
    case False
    have "call_ok t i (calls t ! i)" using all that by simp
    then show ?thesis using False that okc
      by (auto simp add: call_ok_def cleanup_nth cleanup_jobs)
  qed
  moreover have "ref_ok ?t' (if x = Some c then None else x)" if "ref_ok t x" for x
    using that by (auto simp add: ref_ok_def cleanup_nth)
  moreover have "distinct (pending_returns (jobs ?t'))"
    using d okc c by (auto simp add: cleanup_jobs call_ok_def)
  moreover have "\<forall>c \<in> set (pending_returns (jobs ?t')). c < length (calls ?t')"
    using b by (auto simp add: cleanup_jobs)
  ultimately show ?thesis using s a r by (simp add: tts_inv_def)
qed

lemma inv_mute:
  assumes "tts_inv t"
  shows "tts_inv (upd_call c (\<lambda>x. x\<lparr>c_audible := False\<rparr>) t)"
proof -
  let ?t' = "upd_call c (\<lambda>x. x\<lparr>c_audible := False\<rparr>) t"
  have "call_ok ?t' i (calls ?t' ! i)" if "call_ok t i (calls t ! i)" "i < length (calls t)" for i
    using that by (auto simp add: call_ok_def upd_call_nth)
  moreover have "ref_ok ?t' x" if "ref_ok t x" for x
    using that by (auto simp add: ref_ok_def upd_call_nth)
  ultimately show ?thesis using assms by (simp add: tts_inv_def)
qed

lemma inv_audio:
  assumes "tts_inv t" "c < length (calls t)"
  shows "tts_inv (audio_fired c ev t)"
proof -
  let ?t1 = "upd_call c (\<lambda>x. x\<lparr>c_audible := False\<rparr>) t"
  have 1: "tts_inv ?t1" using assms(1) by (rule inv_mute)
  have "tts_inv (cleanupAndResolve c ?t1)"
    using 1 assms(2) by (intro inv_cleanup) (simp_all add: upd_call_nth)
  with 1 show ?thesis by (simp add: audio_fired_def Let_def)
qed

lemma speak_length:
  "length (calls (speakResponse en k txt t)) = (if en then Suc (length (calls t)) else length (calls t))"
  by (simp add: speakResponse_def Let_def)

lemma fetched_length [simp]: "length (calls (speak_fetched c r t)) = length (calls t)"
  by (cases r) (simp_all add: speak_fetched_def)

lemma audio_length [simp]: "length (calls (audio_fired c ev t)) = length (calls t)"
  by (simp add: audio_fired_def Let_def)

lemma calls_nil [simp]:
  "calls (stopTtsNow t) = [] \<longleftrightarrow> calls t = []"
  "calls (speak_fetched c r t) = [] \<longleftrightarrow> calls t = []"
  "calls (audio_fired c ev t) = [] \<longleftrightarrow> calls t = []"
  "calls (speak_return c t) = [] \<longleftrightarrow> calls t = []"
  using stop_refs(6) [of t] fetched_length [of c r t] audio_length [of c ev t]
    return_simps(5) [of c t]
  by (metis length_0_conv)+

lemma tts_rel_inv:
  assumes "tts_rel en t u" "tts_inv t" "en \<or> calls t = []"
  shows "tts_inv u \<and> (en \<or> calls u = []) \<and> length (calls t) \<le> length (calls u)"
  using assms
proof (induction rule: tts_rel.induct)
  case same
  then show ?case by simp
next
  case (stop u)
  then show ?case by (auto simp add: inv_stop)
next
  case (speak u k msg)
  then have "tts_inv (speakResponse en k msg u)" by (simp add: inv_speak)
  moreover have "en \<or> calls (speakResponse en k msg u) = []"
    using speak.IH speak.prems by (cases en) simp_all
  moreover have "length (calls t) \<le> length (calls (speakResponse en k msg u))"
    using speak.IH speak.prems by (simp add: speak_length)
  ultimately show ?case by simp
next
  case (fetched u c r)
  then show ?case by (auto simp add: inv_fetched)
next
  case (audio u c ev)
  then show ?case by (auto simp add: inv_audio)
next
  case (pop_done u c js)
  then show ?case by (auto simp add: inv_return_job)
next
  case (pop_cont u k js)
  then show ?case by (auto simp add: inv_pop_cont)
qed

subsection \<open>Every task keeps the invariant\<close>

lemma rerender_frame [simp]:
  "player (rerender s) = player s" "ttsEnabled (rerender s) = ttsEnabled s"
  "timers (rerender s) = timers s" "speechDetectedRef (rerender s) = speechDetectedRef s"
  "gum_pending (rerender s) = gum_pending s" "api_log (rerender s) = api_log s"
  "transcribing (rerender s) = transcribing s" "chatting (rerender s) = chatting s"
  "jarvisPhase (rerender s) = jarvisPhase s" "clock (rerender s) = clock s"
  "length (sessions (rerender s)) = length (sessions s)"
  by (simp_all add: rerender_def unmountChatView_def upd_session_def Let_def split: option.splits)

lemma resume_player [simp]: "player (resume k s) = player s" "ttsEnabled (resume k s) = ttsEnabled s"
  by (cases k; simp add: handler_defs)+

lemma fire_player [simp]: "player (fire tm s) = player s" "ttsEnabled (fire tm s) = ttsEnabled s"
  by (cases tm; simp add: handler_defs)+

lemmas tts_moves =
  tts_rel.same tts_rel.stop [OF tts_rel.same] tts_rel.speak [OF tts_rel.same]
  tts_rel.speak [OF tts_rel.stop [OF tts_rel.same]] tts_rel.fetched [OF tts_rel.same]
  tts_rel.audio [OF tts_rel.same] tts_rel.pop_done [OF tts_rel.same]
  tts_rel.pop_cont [OF tts_rel.same]

lemma task_player:
  assumes "task e s = Some s'"
  shows "ttsEnabled s' = ttsEnabled s \<and> tts_rel (ttsEnabled s) (player s) (player s')"
proof (cases e)
  case (Timeout i)
  with assms show ?thesis by (auto split: if_splits intro: tts_moves)
next
  case (FetchSettle c r)
  with assms show ?thesis by (auto split: if_splits intro: tts_moves)
next
  case (AudioFired c ev)
  with assms show ?thesis by (auto split: if_splits intro: tts_moves)
next
  case (NavClick nid)
  with assms show ?thesis
    by (cases nid) (auto simp add: handler_defs split: if_splits option.splits intro!: tts_moves)
qed (use assms in \<open>auto simp add: handler_defs split: if_splits option.splits origin.splits
      intro!: tts_moves\<close>)

lemma step_player:
  assumes "step e s = Some s'"
  shows "ttsEnabled s' = ttsEnabled s \<and> tts_rel (ttsEnabled s) (player s) (player s')"
proof (cases "jobs (player s)")
  case Nil
  with assms show ?thesis by (simp add: step_def task_player)
next
  case (Cons j js)
  with assms have s': "s' = run_job j (s\<lparr>player := (player s)\<lparr>jobs := js\<rparr>\<rparr>)"
    by (simp add: step_def split: if_splits)
  show ?thesis
  proof (cases j)
    case (JSpeakDone c)
    with s' Cons show ?thesis by (auto intro: tts_moves)
  next
    case (JCont k)
    with s' Cons show ?thesis by (auto intro: tts_moves)
  qed
qed

lemma step_inv:
  assumes "step e s = Some s'" "engine_inv s"
  shows "engine_inv s' \<and> length (calls (player s)) \<le> length (calls (player s'))"
  using step_player [OF assms(1)] assms(2) tts_rel_inv [of "ttsEnabled s" "player s" "player s'"]
  by (simp add: engine_inv_def)

lemma run_inv:
  assumes "run es s = Some s'" "engine_inv s"
  shows "engine_inv s' \<and> length (calls (player s)) \<le> length (calls (player s'))"
  using assms
proof (induction es arbitrary: s)
  case Nil
  then show ?case by simp
next
  case (Cons e es)
  then obtain u where u: "step e s = Some u" "run es u = Some s'"
    by (auto split: option.splits)
  from step_inv [OF u(1) Cons.prems(2)] Cons.IH [OF u(2)] show ?case by auto
qed

lemma mount_inv: "engine_inv (mountChatView st)"
  by (simp add: engine_inv_def tts_inv_def ref_ok_def mountChatView_def)

lemma initial_inv: "engine_inv (initial en name now)"
  by (simp add: initial_def mount_inv)

lemma reachable_inv: "reachable s \<Longrightarrow> engine_inv s"
  by (induction rule: reachable.induct) (auto simp add: initial_inv step_inv)

lemma run_reachable: "reachable s \<Longrightarrow> run es s = Some s' \<Longrightarrow> reachable s'"
proof (induction es arbitrary: s)
  case Nil
  then show ?case by simp
next
  case (Cons e es)
  then obtain u where "step e s = Some u" "run es u = Some s'" by (auto split: option.splits)
  with Cons show ?case by (blast intro: reachable.reach_step)
qed

lemmas run_initial_reachable = run_reachable [OF reachable.reach_initial]

subsection \<open>Retiring a speak call\<close>

lemma stop_retires:
  assumes "tts_inv t" "c < length (calls t)"
  shows "retired (calls t ! c) (calls (stopTtsNow t) ! c)"
proof -
  have "tts_inv (stopTtsNow t)" using assms(1) by (rule inv_stop)
  then have "call_ok (stopTtsNow t) c (calls (stopTtsNow t) ! c)"
    using assms(2) by (simp add: tts_inv_def)
  moreover have "call_ok t c (calls t ! c)" using assms by (simp add: tts_inv_def)
  ultimately show ?thesis using assms(2)
    by (auto simp add: retired_def call_ok_def stop_call)
qed

lemma speak_old_call:
  "c < length (calls t) \<Longrightarrow> calls (speakResponse True k msg t) ! c = calls (stopTtsNow t) ! c"
  by (simp add: speakResponse_def Let_def nth_append)

lemma speak_retires:
  assumes "tts_inv t" "c < length (calls t)"
  shows "retired (calls t ! c) (calls (speakResponse True k msg t) ! c)"
  using stop_retires [OF assms] assms(2) by (simp add: speak_old_call)

lemma retired_trans: "retired x y \<Longrightarrow> retired y z \<Longrightarrow> retired x z"
  by (auto simp add: retired_def)

lemma stop_speak_retires:
  assumes "tts_inv t" "c < length (calls t)"
  shows "retired (calls t ! c) (calls (speakResponse True k msg (stopTtsNow t)) ! c)"
proof -
  have 1: "retired (calls t ! c) (calls (stopTtsNow t) ! c)" using assms by (rule stop_retires)
  have "tts_inv (stopTtsNow t)" using assms(1) by (rule inv_stop)
  then have "retired (calls (stopTtsNow t) ! c) (calls (speakResponse True k msg (stopTtsNow t)) ! c)"
    using assms(2) by (intro speak_retires) simp_all
  with 1 show ?thesis by (rule retired_trans)
qed

lemma speaksI:
  "speaks t (speakResponse True k msg t)"
  "speaks t (speakResponse True k msg (stopTtsNow t))"
  by (auto simp add: speaks_def)

lemma grows_speak:
  "length (calls t) < length (calls (speakResponse en k msg t)) \<Longrightarrow> en"
  "length (calls t) < length (calls (speakResponse en k msg (stopTtsNow t))) \<Longrightarrow> en"
  by (simp_all add: speak_length split: if_splits)

lemma task_speaks:
  assumes "task e s = Some s'" "length (calls (player s)) < length (calls (player s'))"
  shows "speaks (player s) (player s')"
proof (cases e)
  case (Timeout i)
  with assms show ?thesis by (auto split: if_splits)
next
  case (FetchSettle c r)
  with assms show ?thesis by (auto split: if_splits)
next
  case (AudioFired c ev)
  with assms show ?thesis by (auto split: if_splits)
next
  case (NavClick nid)
  with assms show ?thesis
    by (cases nid) (auto simp add: handler_defs split: if_splits option.splits
        dest!: grows_speak intro!: speaksI)
qed (use assms in \<open>auto simp add: handler_defs split: if_splits option.splits origin.splits
      dest!: grows_speak intro!: speaksI\<close>)

lemma step_speaks:
  assumes "step e s = Some s'" "length (calls (player s)) < length (calls (player s'))"
  shows "speaks (player s) (player s')"
proof (cases "jobs (player s)")
  case Nil
  with assms show ?thesis by (simp add: step_def task_speaks)
next
  case (Cons j js)
  with assms have s': "s' = run_job j (s\<lparr>player := (player s)\<lparr>jobs := js\<rparr>\<rparr>)"
    by (simp add: step_def split: if_splits)
  with assms(2) show ?thesis by (cases j) simp_all
qed

lemma superseded_silent:
  assumes "engine_inv s" "Suc c < length (calls (player s))"
  shows "\<not> c_audible (calls (player s) ! c)" "c_status (calls (player s) ! c) \<noteq> Playing"
    "\<not> c_url_live (calls (player s) ! c)" "c_seq (calls (player s) ! c) < ttsSeqRef (player s)"
proof -
  from assms have "call_ok (player s) c (calls (player s) ! c)"
    and "ttsSeqRef (player s) = length (calls (player s))"
    by (simp_all add: engine_inv_def tts_inv_def)
  with assms(2) show "\<not> c_audible (calls (player s) ! c)"
    "c_status (calls (player s) ! c) \<noteq> Playing" "\<not> c_url_live (calls (player s) ! c)"
    "c_seq (calls (player s) ! c) < ttsSeqRef (player s)"
    by (auto simp add: call_ok_def)
qed

lemma stale_fetch_discarded:
  assumes "engine_inv s" "c_seq (calls (player s) ! c) \<noteq> ttsSeqRef (player s)"
    and "step (FetchSettle c r) s = Some u"
  shows "c_status (calls (player u) ! c) = Returned"
    and "\<not> c_played (calls (player u) ! c)"
    and "jobs (player u) = [JCont (c_kont (calls (player s) ! c))]"
    and "map c_audible (calls (player u)) = map c_audible (calls (player s))"
    and "ttsAudioRef (player u) = ttsAudioRef (player s)"
    and "ttsSeqRef (player u) = ttsSeqRef (player s)"
proof -
  from assms(3) have j: "jobs (player s) = []" and c: "c < length (calls (player s))"
    and st: "c_status (calls (player s) ! c) = InFlight"
    and u: "u = s\<lparr>player := speak_fetched c r (player s)\<rparr>"
    by (auto simp add: step_def split: list.splits if_splits)
  from assms(1) c have ok: "call_ok (player s) c (calls (player s) ! c)"
    by (simp add: engine_inv_def tts_inv_def)
  have f: "speak_fetched c r (player s) = speak_return c (player s)"
    using assms(2) by (cases r) (simp_all add: speak_fetched_def)
  show "c_status (calls (player u) ! c) = Returned" using c by (simp add: u f return_nth)
  show "\<not> c_played (calls (player u) ! c)" using c ok st by (simp add: u f return_nth call_ok_def)
  show "jobs (player u) = [JCont (c_kont (calls (player s) ! c))]" using j by (simp add: u f)
  show "map c_audible (calls (player u)) = map c_audible (calls (player s))"
    by (rule nth_equalityI) (simp_all add: u f return_nth)
  show "ttsAudioRef (player u) = ttsAudioRef (player s)" by (simp add: u f)
  show "ttsSeqRef (player u) = ttsSeqRef (player s)" by (simp add: u f)
qed

text \<open>Promise jobs run before any other task, oldest first: a queued resumption of a speak
  call is reached after as many jobs as stand before it.\<close>

lemma micro_step:
  assumes "jobs (player s) = j # js"
  shows "step Micro s = Some (run_job j (s\<lparr>player := (player s)\<lparr>jobs := js\<rparr>\<rparr>))"
  using assms by (simp add: step_def)

lemma run_job_calls:
  "length (calls (player (run_job j s))) = length (calls (player s))"
  "c < length (calls (player s)) \<Longrightarrow>
     c_kont (calls (player (run_job j s)) ! c) = c_kont (calls (player s) ! c)"
  "\<exists>extra. jobs (player (run_job j s)) = jobs (player s) @ extra"
  by (cases j; simp add: return_nth)+

lemma drain_to_return:
  assumes "jobs (player s) = pre @ JSpeakDone c # post" "c < length (calls (player s))"
  shows "\<exists>u. run (replicate (Suc (length pre)) Micro) s = Some u \<and>
             c_status (calls (player u) ! c) = Returned \<and>
             JCont (c_kont (calls (player s) ! c)) \<in> set (jobs (player u))"
  using assms
proof (induction pre arbitrary: s post)
  case Nil
  then have "step Micro s = Some (run_job (JSpeakDone c) (s\<lparr>player := (player s)\<lparr>jobs := post\<rparr>\<rparr>))"
    by (simp add: micro_step)
  with Nil.prems(2) show ?case by (simp add: return_nth)
next
  case (Cons j pre)
  let ?s0 = "s\<lparr>player := (player s)\<lparr>jobs := pre @ JSpeakDone c # post\<rparr>\<rparr>"
  let ?s1 = "run_job j ?s0"
  from Cons.prems(1) have st: "step Micro s = Some ?s1" by (simp add: micro_step)
  obtain extra where "jobs (player ?s1) = jobs (player ?s0) @ extra"
    using run_job_calls(3) [of j ?s0] by blast
  then have j1: "jobs (player ?s1) = pre @ JSpeakDone c # (post @ extra)" by simp
  have c1: "c < length (calls (player ?s1))" using Cons.prems(2) by (simp add: run_job_calls)
  have k1: "c_kont (calls (player ?s1) ! c) = c_kont (calls (player s) ! c)"
    using Cons.prems(2) run_job_calls(2) [of c ?s0 j] by simp
  from Cons.IH [OF j1 c1] k1 st show ?case by simp
qed

lemma speaks_facts:
  assumes "speaks t u" "tts_inv t"
  shows "length (calls u) = Suc (length (calls t))"
    and "ttsSeqRef u = Suc (ttsSeqRef t)"
    and "c_seq (last (calls u)) = Suc (ttsSeqRef t)"
    and "c_status (last (calls u)) = InFlight"
    and "c < length (calls t) \<Longrightarrow> retired (calls t ! c) (calls u ! c)"
proof -
  from assms(1) obtain k msg where
    u: "u = speakResponse True k msg t \<or> u = speakResponse True k msg (stopTtsNow t)"
    by (auto simp add: speaks_def)
  then show "length (calls u) = Suc (length (calls t))" "ttsSeqRef u = Suc (ttsSeqRef t)"
    "c_seq (last (calls u)) = Suc (ttsSeqRef t)" "c_status (last (calls u)) = InFlight"
    by (auto simp add: speakResponse_def Let_def)
  show "retired (calls t ! c) (calls u ! c)" if "c < length (calls t)"
    using u that assms(2) by (auto simp add: speak_retires stop_speak_retires)
qed

lemma pending_returns_set: "c \<in> set (pending_returns js) \<longleftrightarrow> JSpeakDone c \<in> set js"
  by (induction js rule: pending_returns.induct) auto

subsection \<open>Voice activity\<close>

lemma stopRecording_stops:
  "\<not> isRecordingRef (stopRecording s)" "\<not> recording (stopRecording s)"
  "speechDetectedRef (stopRecording s) = speechDetectedRef s"
  "silenceStartRef (stopRecording s) = silenceStartRef s"
  by (auto simp add: stopRecording_def stop_recorder_def cancel_frame_def upd_session_def
      recording_def split: option.splits)

lemma requestAnimationFrame_vad:
  "silenceStartRef (requestAnimationFrame s) = silenceStartRef s"
  "speechDetectedRef (requestAnimationFrame s) = speechDetectedRef s"
  "isRecordingRef (requestAnimationFrame s) = isRecordingRef s"
  by (simp_all add: requestAnimationFrame_def)







subsection \<open>Mode switch, stop and timers\<close>

lemma resume_view [simp]: "onModeSwitch (resume k s) = onModeSwitch s" "currentView (resume k s) = currentView s"
  by (cases k; simp add: handler_defs)+

lemma fire_view [simp]: "onModeSwitch (fire tm s) = onModeSwitch s" "currentView (fire tm s) = currentView s"
  by (cases tm; simp add: handler_defs)+


lemma handleModeSwitch_player:
  "player (handleModeSwitch m g s) =
     speakResponse (ttsEnabled s)
       (if conversationActive s \<or> jarvisPhase s \<noteq> Idle then KSwitchActive else KSwitchIdle) g
       (stopTtsNow (player s))"
  by (simp add: handleModeSwitch_def speak_def stop_tracks_def stop_recorder_def cancel_frame_def
      upd_session_def Let_def split: option.splits)

lemma handleModeSwitch_active:
  assumes "conversationActive s \<or> jarvisPhase s \<noteq> Idle"
  shows "handleModeSwitch m g s =
     speak KSwitchActive g
       ((stop_tracks (stop_recorder (cancel_frame
           (s\<lparr>player := stopTtsNow (player s), isRecordingRef := False\<rparr>))))
          \<lparr>jarvisPhase := Speaking\<rparr>)"
  using assms by (auto simp add: handleModeSwitch_def Let_def)

lemma handleModeSwitch_idle:
  assumes "\<not> (conversationActive s \<or> jarvisPhase s \<noteq> Idle)"
  shows "handleModeSwitch m g s =
     speak KSwitchIdle g (s\<lparr>player := stopTtsNow (player s), jarvisPhase := Speaking\<rparr>)"
  using assms by (auto simp add: handleModeSwitch_def Let_def)

lemma speak_frame [simp]:
  "jarvisPhase (speak k g s) = jarvisPhase s" "isRecordingRef (speak k g s) = isRecordingRef s"
  "sessions (speak k g s) = sessions s" "streamRef (speak k g s) = streamRef s"
  "frames (speak k g s) = frames s" "rafIdRef (speak k g s) = rafIdRef s"
  "timers (speak k g s) = timers s" "gum_pending (speak k g s) = gum_pending s"
  "mediaRecorderRef (speak k g s) = mediaRecorderRef s"
  "api_log (speak k g s) = api_log s" "chatting (speak k g s) = chatting s"
  "transcribing (speak k g s) = transcribing s" 
  "player (speak k g s) = speakResponse (ttsEnabled s) k g (player s)"
  by (simp_all add: speak_def)

lemma recording_frame [simp]:
  "recording (speak k g s) = recording s" "recording (s\<lparr>jarvisPhase := p\<rparr>) = recording s"
  by (simp_all add: recording_def split: option.splits)

lemma capture_frame [simp]:
  "jarvisPhase (stop_tracks (stop_recorder (cancel_frame s))) = jarvisPhase s"
  "isRecordingRef (stop_tracks (stop_recorder (cancel_frame s))) = isRecordingRef s"
  "timers (stop_tracks (stop_recorder (cancel_frame s))) = timers s"
  "gum_pending (stop_tracks (stop_recorder (cancel_frame s))) = gum_pending s"
  "api_log (stop_tracks (stop_recorder (cancel_frame s))) = api_log s"
  "transcribing (stop_tracks (stop_recorder (cancel_frame s))) = transcribing s"
  "shouldContinueRef (stop_tracks (stop_recorder (cancel_frame s))) = shouldContinueRef s"
  "conversationActive (stop_tracks (stop_recorder (cancel_frame s))) = conversationActive s"
  "player (stop_tracks (stop_recorder (cancel_frame s))) = player s"
  by (simp_all add: stop_tracks_def stop_recorder_def cancel_frame_def upd_session_def
      split: option.splits)

lemma resume_timers: "set (timers s) \<subseteq> set (timers (resume k s))"
  by (cases k) (auto simp add: handler_defs)

lemma fire_timers: "set (timers s) \<subseteq> set (timers (fire tm s))"
  by (cases tm) (auto simp add: handler_defs)

lemma remove_nth_keeps:
  assumes "i < length ts" "x \<in> set ts" "ts ! i \<noteq> x"
  shows "x \<in> set (take i ts @ drop (Suc i) ts)"
proof -
  have "set ts = set (take i ts @ ts ! i # drop (Suc i) ts)"
    using id_take_nth_drop [OF assms(1)] by simp
  with assms(2,3) show ?thesis by auto
qed

lemma task_timers_kept:
  assumes "task e s = Some s'" "\<And>i. e \<noteq> Timeout i"
  shows "set (timers s) \<subseteq> set (timers s')"
proof (cases e)
  case (Timeout i)
  with assms(2) [of i] show ?thesis by simp
next
  case (NavClick nid)
  with assms(1) show ?thesis
    by (cases nid) (auto simp add: handler_defs split: if_splits option.splits)
qed (use assms(1) in \<open>auto simp add: handler_defs split: if_splits option.splits origin.splits\<close>)

lemma step_timers:
  assumes "step e s = Some s'" "x \<in> set (timers s)" "\<And>i. e = Timeout i \<Longrightarrow> timers s ! i \<noteq> x"
  shows "x \<in> set (timers s')"
proof (cases "jobs (player s)")
  case Nil
  then have t: "task e s = Some s'" using assms(1) by (simp add: step_def)
  show ?thesis
  proof (cases "\<exists>i. e = Timeout i")
    case True
    then obtain i where e: "e = Timeout i" by blast
    with t have i: "i < length (timers s)"
      and s': "s' = fire (snd (timers s ! i))
                      (s\<lparr>timers := take i (timers s) @ drop (Suc i) (timers s)\<rparr>)"
      by (auto split: if_splits)
    have "x \<in> set (take i (timers s) @ drop (Suc i) (timers s))"
      using i assms(2) assms(3) [OF e] by (rule remove_nth_keeps)
    then show ?thesis unfolding s' using fire_timers by fastforce
  next
    case False
    then show ?thesis using task_timers_kept [OF t] assms(2) by blast
  qed
next
  case (Cons j js)
  with assms(1) have "s' = run_job j (s\<lparr>player := (player s)\<lparr>jobs := js\<rparr>\<rparr>)"
    by (simp add: step_def split: if_splits)
  then show ?thesis using assms(2) resume_timers by (cases j) fastforce+
qed

lemma max_timer_stops:
  assumes "jobs (player s) = []" "i < length (timers s)" "timers s ! i = (due, TMaxTime r0)"
    "due \<le> clock s" "isRecordingRef s" "mediaRecorderRef s = Some r" "r < length (sessions s)"
    "rec_state (sessions s ! r) = Recording"
  shows "\<exists>s'. step (Timeout i) s = Some s' \<and> \<not> isRecordingRef s' \<and>
            rec_state (sessions s' ! r) = Inactive \<and> stop_queued (sessions s' ! r)"
  using assms
  by (simp add: step_def max_time_reached_def stopRecording_def stop_recorder_def cancel_frame_def
      recording_def upd_session_def)


lemma recording_display [simp]:
  "recording (s\<lparr>jarvisPhase := p, isListening := l, audioLevel := a\<rparr>) = recording s"
  by (simp add: recording_def split: option.splits)




subsection \<open>The scenarios, evaluated\<close>

lemma run_the:
  assumes "case run es s0 of None \<Rightarrow> False | Some s \<Rightarrow> P s"
  shows "run es s0 = Some (the (run es s0))" and "P (the (run es s0))"
  using assms by (cases "run es s0"; simp)+

lemma step_the:
  assumes "case step e s of None \<Rightarrow> False | Some s' \<Rightarrow> P s'"
  shows "step e s = Some (the (step e s))" and "P (the (step e s))"
  using assms by (cases "step e s"; simp)+


lemma restarted_eval:
  "case run restarted_events (initial True ''VV'' 1000) of None \<Rightarrow> False
   | Some s \<Rightarrow>
       jobs (player s) = [] \<and> timers s = [(21000, TMaxTime 0), (24800, TMaxTime 1)] \<and>
       clock s = 21000 \<and> isRecordingRef s \<and> mediaRecorderRef s = Some 1 \<and>
       length (sessions s) = 2 \<and> rec_state (sessions s ! 1) = Recording \<and>
       \<not> speechDetectedRef s \<and> silenceStartRef s = None"
  unfolding restarted_events_def by (simp add: engine_defs)

lemma restarted_state:
  "run restarted_events (initial True ''VV'' 1000) = Some restarted"
  "jobs (player restarted) = []"
  "timers restarted = [(21000, TMaxTime 0), (24800, TMaxTime 1)]"
  "clock restarted = 21000" "isRecordingRef restarted" "mediaRecorderRef restarted = Some 1"
  "length (sessions restarted) = 2" "rec_state (sessions restarted ! 1) = Recording"
  "\<not> speechDetectedRef restarted" "silenceStartRef restarted = None"
  using run_the [OF restarted_eval] by (simp_all add: restarted_def)

lemma doubled_eval:
  "case run doubled_events (initial True ''VV'' 1000) of None \<Rightarrow> False
   | Some s \<Rightarrow>
       map stream_live (sessions s) = [False, True, True] \<and>
       map rec_state (sessions s) = [Inactive, Recording, Recording] \<and>
       frames s = [2, 3] \<and> streamRef s = Some 2 \<and> mediaRecorderRef s = Some 2 \<and>
       analyserRef s = Some 2 \<and> isRecordingRef s \<and> jarvisPhase s = Listening"
  unfolding doubled_events_def by (simp add: engine_defs)

lemma leaked_eval:
  "case run leaked_events (initial True ''VV'' 1000) of None \<Rightarrow> False
   | Some s \<Rightarrow>
       map stream_live (sessions s) = [False, True, False] \<and>
       map rec_state (sessions s) = [Inactive, Recording, Inactive] \<and>
       frames s = [] \<and> timers s = [] \<and> jobs (player s) = [] \<and> gum_pending s = 0 \<and>
       map stop_queued (sessions s) = [False, False, False] \<and>
       streamRef s = None \<and> \<not> isRecordingRef s \<and> jarvisPhase s = Idle"
  unfolding leaked_events_def doubled_events_def by (simp add: engine_defs)

lemma hot_mic_eval:
  "case run hot_mic_events (initial True ''VV'' 1000) of None \<Rightarrow> False
   | Some s \<Rightarrow>
       map rec_state (sessions s) = [Recording] \<and> map stream_live (sessions s) = [True] \<and>
       clock s = 21000 \<and> timers s = [] \<and> frames s = [] \<and> jobs (player s) = [] \<and>
       gum_pending s = 0 \<and> jarvisPhase s = Idle \<and> \<not> isRecordingRef s \<and>
       \<not> shouldContinueRef s"
  unfolding hot_mic_events_def by (simp add: engine_defs)







subsection \<open>The app keeps the invariant of every player\<close>

lemmas app_defs = app_initial_def chat_def load_def save_def render_app_def quiescent_def

lemma app_run_the:
  assumes "case app_run es a0 of None \<Rightarrow> False | Some a \<Rightarrow> P a"
  shows "app_run es a0 = Some (the (app_run es a0))" and "P (the (app_run es a0))"
  using assms by (cases "app_run es a0"; simp)+

lemma load_inv [simp]: "engine_inv (load st s) = engine_inv s"
  by (simp add: engine_inv_def load_def)

lemma app_step_inv:
  assumes "app_step e a = Some a'" "list_all engine_inv (chats a)"
  shows "list_all engine_inv (chats a')"
proof (cases e)
  case (On j ev)
  with assms(1) obtain s' where j: "j < length (chats a)" and st: "step ev (chat a j) = Some s'"
    and a': "a' = \<lparr>common = save s', chats = (chats a)[j := s']\<rparr>"
    by (auto split: if_splits option.splits)
  from assms(2) j have "engine_inv (chat a j)" by (simp add: chat_def list_all_length)
  with st have "engine_inv s'" using step_inv by blast
  with assms(2) j show ?thesis
    by (simp add: a' list_all_length nth_list_update)
next
  case BackToChat
  with assms show ?thesis by (auto simp add: render_app_def mount_inv split: if_splits)
next
  case (SidebarClick nid)
  with assms show ?thesis by (auto simp add: render_app_def mount_inv split: if_splits)
next
  case ToggleTts
  with assms show ?thesis by (auto split: if_splits)
next
  case RegisterNow
  with assms show ?thesis by (auto split: if_splits)
qed

lemma app_reachable_inv: "app_reachable a \<Longrightarrow> list_all engine_inv (chats a)"
proof (induction rule: app_reachable.induct)
  case (app_start enabled name now)
  show ?case by (simp add: app_initial_def initial_inv)
next
  case (app_next a e a')
  then show ?case using app_step_inv by blast
qed

lemma chat_inv: "app_reachable a \<Longrightarrow> i < length (chats a) \<Longrightarrow> engine_inv (chat a i)"
  using app_reachable_inv [of a] by (simp add: chat_def list_all_length)

lemma app_run_reachable: "app_reachable a \<Longrightarrow> app_run es a = Some a' \<Longrightarrow> app_reachable a'"
proof (induction es arbitrary: a)
  case Nil
  then show ?case by simp
next
  case (Cons e es)
  then obtain b where "app_step e a = Some b" "app_run es b = Some a'" by (auto split: option.splits)
  with Cons show ?case by (blast intro: app_reachable.app_next)
qed

lemmas app_run_initial_reachable = app_run_reachable [OF app_reachable.app_start]

lemma load_save [simp]: "load (save s) s = s"
  by (simp add: load_def save_def)



lemma single_chat [simp]: "chat \<lparr>common = save s, chats = [s]\<rparr> 0 = s"
  by (simp add: chat_def)

subsection \<open>The analysis loop, sample by sample\<close>


lemma recording_raf [simp]:
  "recording (requestAnimationFrame s) = recording s"
  "recording (s\<lparr>audioLevel := l\<rparr>) = recording s"
  "recording (s\<lparr>silenceStartRef := t\<rparr>) = recording s"
  "recording (s\<lparr>speechDetectedRef := b\<rparr>) = recording s"
  "recording (s\<lparr>clock := c\<rparr>) = recording s"
  "recording (s\<lparr>frames := fs\<rparr>) = recording s"
  by (simp_all add: recording_def requestAnimationFrame_def split: option.splits)










subsection \<open>After a stop nothing starts a capture session\<close>








lemma halted_phase:
  assumes "halted s" "p \<noteq> Listening"
  shows "halted (s\<lparr>jarvisPhase := p\<rparr>)"
  using assms by (simp add: halted_def released_def)




lemma upd_session_length [simp]: "length (sessions (upd_session a f s)) = length (sessions s)"
  by (simp add: upd_session_def)


lemma released_frame [simp]:
  "released (s\<lparr>jarvisPhase := p\<rparr>) = released s"
  "released (s\<lparr>isListening := l\<rparr>) = released s"
  "released (s\<lparr>streamRef := r\<rparr>) = released s"
  "released (s\<lparr>timers := ts\<rparr>) = released s"
  "released (s\<lparr>api_log := al\<rparr>) = released s"
  "released (s\<lparr>transcribing := n\<rparr>) = released s"
  "released (s\<lparr>audioChunksRef := cs\<rparr>) = released s"
  by (simp_all add: released_def)

lemma upd_session_frame [simp]:
  "shouldContinueRef (upd_session a f s) = shouldContinueRef s"
  "isRecordingRef (upd_session a f s) = isRecordingRef s"
  "gum_pending (upd_session a f s) = gum_pending s"
  "timers (upd_session a f s) = timers s"
  "player (upd_session a f s) = player s"
  "jarvisPhase (upd_session a f s) = jarvisPhase s"
  "streamRef (upd_session a f s) = streamRef s"
  "audioContextRef (upd_session a f s) = audioContextRef s"
  "speechDetectedRef (upd_session a f s) = speechDetectedRef s"
  "audioChunksRef (upd_session a f s) = audioChunksRef s"
  by (simp_all add: upd_session_def)






lemma cancel_frame_capture [simp]:
  "sessions (cancel_frame s) = sessions s" "streamRef (cancel_frame s) = streamRef s"
  "mediaRecorderRef (cancel_frame s) = mediaRecorderRef s"
  by (simp_all add: cancel_frame_def)


lemma stop_recorder_frame [simp]:
  "streamRef (stop_recorder s) = streamRef s" "length (sessions (stop_recorder s)) = length (sessions s)"
  by (simp_all add: stop_recorder_def)


lemma stop_tracks_length [simp]: "length (sessions (stop_tracks s)) = length (sessions s)"
  by (simp add: stop_tracks_def split: option.splits)



subsection \<open>More scenarios, evaluated\<close>






lemma greeting_playing_eval:
  "case app_run [On 0 MicClick, On 0 (FetchSettle 0 FetchOk)] (app_initial True ''VV'' 1000) of
     None \<Rightarrow> False
   | Some a \<Rightarrow>
       length (chats a) = 1 \<and> length (calls (player (chat a 0))) = 1 \<and>
       c_status (calls (player (chat a 0)) ! 0) = Playing \<and>
       c_kont (calls (player (chat a 0)) ! 0) = KGreeting \<and>
       (case step (NavClick (Mode Story)) (chat a 0) of None \<Rightarrow> False
        | Some s' \<Rightarrow> length (calls (player s')) = 2)"
  by (simp add: app_defs engine_defs)

lemma greeting_playing_state:
  "app_run [On 0 MicClick, On 0 (FetchSettle 0 FetchOk)] (app_initial True ''VV'' 1000) =
     Some greeting_playing"
  "length (chats greeting_playing) = 1" "length (calls (player (chat greeting_playing 0))) = 1"
  "c_status (calls (player (chat greeting_playing 0)) ! 0) = Playing"
  "c_kont (calls (player (chat greeting_playing 0)) ! 0) = KGreeting"
  "step (NavClick (Mode Story)) (chat greeting_playing 0) = Some greeting_cut"
  "length (calls (player greeting_cut)) = 2"
proof -
  note a = app_run_the [OF greeting_playing_eval, folded greeting_playing_def]
  show "app_run [On 0 MicClick, On 0 (FetchSettle 0 FetchOk)] (app_initial True ''VV'' 1000) =
     Some greeting_playing" by (rule a(1))
  from a(2) show "length (chats greeting_playing) = 1"
    "length (calls (player (chat greeting_playing 0))) = 1"
    "c_status (calls (player (chat greeting_playing 0)) ! 0) = Playing"
    "c_kont (calls (player (chat greeting_playing 0)) ! 0) = KGreeting"
    by simp_all
  from a(2) have
    c: "case step (NavClick (Mode Story)) (chat greeting_playing 0) of None \<Rightarrow> False
        | Some s' \<Rightarrow> length (calls (player s')) = 2" by simp
  from step_the [OF c] show "step (NavClick (Mode Story)) (chat greeting_playing 0) = Some greeting_cut"
    "length (calls (player greeting_cut)) = 2"
    by (simp_all add: greeting_cut_def)
qed

lemma remounted_eval:
  "case app_run remount_events (app_initial True ''VV'' 1000) of None \<Rightarrow> False
   | Some a \<Rightarrow>
       length (chats a) = 2 \<and> \<not> mounted (chats a ! 0) \<and> mounted (chats a ! 1) \<and>
       map c_status (calls (player (chats a ! 0))) = [Playing] \<and>
       map c_audible (calls (player (chats a ! 0))) = [True] \<and>
       map c_aborted (calls (player (chats a ! 0))) = [False] \<and>
       map c_url_live (calls (player (chats a ! 0))) = [True] \<and>
       map c_status (calls (player (chats a ! 1))) = [Playing] \<and>
       map c_audible (calls (player (chats a ! 1))) = [True] \<and>
       map c_seq (calls (player (chats a ! 0))) = [1] \<and>
       map c_seq (calls (player (chats a ! 1))) = [1]"
  unfolding remount_events_def by (simp add: app_defs engine_defs)

lemma greeting_switched_eval:
  "case run greeting_switched_events (initial True ''VV'' 1000) of None \<Rightarrow> False
   | Some s \<Rightarrow>
       length (calls (player s)) = 2 \<and>
       c_seq (calls (player s) ! 0) = 1 \<and> ttsSeqRef (player s) = 2 \<and>
       c_status (calls (player s) ! 0) = Returned \<and>
       c_kont (calls (player s) ! 0) = KGreeting \<and>
       c_status (calls (player s) ! 1) = InFlight \<and>
       jobs (player s) = [] \<and> jarvisPhase s = Listening \<and> isListening s \<and>
       gum_pending s = 1 \<and> isRecordingRef s"
  unfolding greeting_switched_events_def by (simp add: engine_defs)

lemma overheard_eval:
  "case run (greeting_switched_events @ [GumOk, FetchSettle 1 FetchOk]) (initial True ''VV'' 1000) of
     None \<Rightarrow> False
   | Some s \<Rightarrow>
       jarvisPhase s = Listening \<and> map rec_state (sessions s) = [Recording] \<and>
       map stream_live (sessions s) = [True] \<and> isRecordingRef s \<and>
       map c_audible (calls (player s)) = [False, True] \<and>
       map c_status (calls (player s)) = [Returned, Playing] \<and>
       c_text (calls (player s) ! 1) = MODE_GREETINGS Story \<and>
       c_kont (calls (player s) ! 1) = KSwitchActive \<and>
       timers s = [(21000, TMaxTime 0)] \<and> frames s = [1] \<and> jobs (player s) = []"
  unfolding greeting_switched_events_def by (simp add: engine_defs)

lemma greeting_stopped_eval:
  "case run [MicClick, FetchSettle 0 FetchOk, NavClick (Mode Story)] (initial True ''VV'' 1000) of
     None \<Rightarrow> False
   | Some s \<Rightarrow>
       length (calls (player s)) = 2 \<and> ttsSeqRef (player s) = 2 \<and>
       c_seq (calls (player s) ! 0) = 1 \<and> c_seq (calls (player s) ! 1) = 2 \<and>
       c_status (calls (player s) ! 0) = Resolved \<and> jarvisPhase s = Speaking \<and>
       gum_pending s = 0"
  by (simp add: engine_defs)

section \<open>Claims\<close>

text \<open>
  C1 (code at the failing input). The first greeting is playing when the user opens the
  settings: ChatView is unmounted, and its cleanup leaves the player alone. Back in the
  chat view a new ChatView is mounted with refs of its own; a click on Story makes it speak
  the greeting of the mode, and the stopTtsNow of that call finds its refs empty. When the
  fetch has landed the earlier call has not been retired: it is still audible and playing,
  its fetch was not aborted, its blob URL is alive and its promise unresolved, while the
  new call is audible too. Both calls carry the number 1.
\<close>

theorem playback_overlaps_after_remount:
  "app_run remount_events (app_initial True ''VV'' 1000) = Some remounted \<and>
   length (chats remounted) = 2 \<and>
   \<not> mounted (chats remounted ! 0) \<and> mounted (chats remounted ! 1) \<and>
   map c_status (calls (player (chats remounted ! 0))) = [Playing] \<and>
   map c_audible (calls (player (chats remounted ! 0))) = [True] \<and>
   map c_aborted (calls (player (chats remounted ! 0))) = [False] \<and>
   map c_url_live (calls (player (chats remounted ! 0))) = [True] \<and>
   map c_status (calls (player (chats remounted ! 1))) = [Playing] \<and>
   map c_audible (calls (player (chats remounted ! 1))) = [True] \<and>
   map c_seq (calls (player (chats remounted ! 0))) = [1] \<and>
   map c_seq (calls (player (chats remounted ! 1))) = [1]"
  using app_run_the [OF remounted_eval] by (simp add: remounted_def)

text \<open>
  C2, as stated, fails: a superseded call does complete to the application. The mode is
  switched while the first greeting (call 0, number 1) plays. At the end of the click the
  greeting of the mode is call 1 with number 2, the phase is Speaking, and stopTtsNow has
  resolved the promise of call 0. When the promise jobs of the click have run, call 0 has
  returned although the newest number is 2, and its caller, startConversation, has
  resumed: the phase is Listening and the microphone is requested.
\<close>

theorem superseded_call_completes:
  "run [MicClick, FetchSettle 0 FetchOk, NavClick (Mode Story)] (initial True ''VV'' 1000) =
     Some greeting_stopped \<and>
   c_seq (calls (player greeting_stopped) ! 0) = 1 \<and>
   c_seq (calls (player greeting_stopped) ! 1) = 2 \<and>
   ttsSeqRef (player greeting_stopped) = 2 \<and>
   c_status (calls (player greeting_stopped) ! 0) = Resolved \<and>
   jarvisPhase greeting_stopped = Speaking \<and> gum_pending greeting_stopped = 0 \<and>
   run greeting_switched_events (initial True ''VV'' 1000) = Some greeting_switched \<and>
   c_seq (calls (player greeting_switched) ! 0) = 1 \<and>
   ttsSeqRef (player greeting_switched) = 2 \<and>
   c_status (calls (player greeting_switched) ! 0) = Returned \<and>
   c_kont (calls (player greeting_switched) ! 0) = KGreeting \<and>
   jobs (player greeting_switched) = [] \<and>
   jarvisPhase greeting_switched = Listening \<and> isListening greeting_switched \<and>
   gum_pending greeting_switched = 1"
  using run_the [OF greeting_stopped_eval] run_the [OF greeting_switched_eval]
  by (simp add: greeting_stopped_def greeting_switched_def)

text \<open>
  C2, amended. The speak calls of one ChatView carry strictly increasing sequence numbers,
  none above ttsSeqRef; a task that starts a call tags it with ttsSeqRef + 1; when the
  fetch of a call settles after a newer call was started (its number is no longer
  ttsSeqRef) the call returns without playing and nothing becomes audible; only the call
  with the highest number is audible or playing. A superseded call still completes to the
  application: a call that was playing when the newer call started has its promise
  resolved in that task, and the queued promise jobs return it and queue the resumption of
  its caller; a call that awaited its fetch returns and queues the resumption of its
  caller when the fetch settles. What the outstanding calls of an unmounted ChatView do
  next to the calls of its successor is not part of this statement.
\<close>

theorem sequence_numbers:
  assumes "app_reachable a" and "i < length (chats a)" and "s = chat a i"
  shows "(\<forall>j k. j < k \<and> k < length (calls (player s)) \<longrightarrow>
            c_seq (calls (player s) ! j) < c_seq (calls (player s) ! k)) \<and>
         (\<forall>j. j < length (calls (player s)) \<longrightarrow>
            c_seq (calls (player s) ! j) \<le> ttsSeqRef (player s)) \<and>
         (\<forall>e s'. step e s = Some s' \<and> length (calls (player s)) < length (calls (player s')) \<longrightarrow>
            length (calls (player s')) = Suc (length (calls (player s))) \<and>
            c_seq (last (calls (player s'))) = Suc (ttsSeqRef (player s)) \<and>
            ttsSeqRef (player s') = Suc (ttsSeqRef (player s))) \<and>
         (\<forall>c r u. step (FetchSettle c r) s = Some u \<and>
                  c_seq (calls (player s) ! c) \<noteq> ttsSeqRef (player s) \<longrightarrow>
            c_status (calls (player u) ! c) = Returned \<and>
            \<not> c_played (calls (player u) ! c) \<and>
            map c_audible (calls (player u)) = map c_audible (calls (player s)) \<and>
            ttsSeqRef (player u) = ttsSeqRef (player s) \<and>
            jobs (player u) = [JCont (c_kont (calls (player s) ! c))]) \<and>
         (\<forall>c. c < length (calls (player s)) \<and>
              (c_audible (calls (player s) ! c) \<or> c_status (calls (player s) ! c) = Playing) \<longrightarrow>
            c_seq (calls (player s) ! c) = ttsSeqRef (player s)) \<and>
         (\<forall>e s' c. step e s = Some s' \<and>
              length (calls (player s)) < length (calls (player s')) \<and>
              c < length (calls (player s)) \<and> c_status (calls (player s) ! c) = Playing \<longrightarrow>
            c_status (calls (player s') ! c) = Resolved \<and> \<not> c_audible (calls (player s') ! c) \<and>
            (\<exists>n u. run (replicate n Micro) s' = Some u \<and>
                   c_status (calls (player u) ! c) = Returned \<and>
                   JCont (c_kont (calls (player s) ! c)) \<in> set (jobs (player u))))"
proof -
  have inv: "engine_inv s" using assms by (simp add: chat_inv)
  then have t: "tts_inv (player s)" by (simp add: engine_inv_def)
  then have seq: "c_seq (calls (player s) ! j) = Suc j" if "j < length (calls (player s))" for j
    using that by (simp add: tts_inv_def call_ok_def)
  have n: "ttsSeqRef (player s) = length (calls (player s))" using t by (simp add: tts_inv_def)
  have 1: "\<forall>j k. j < k \<and> k < length (calls (player s)) \<longrightarrow>
            c_seq (calls (player s) ! j) < c_seq (calls (player s) ! k)"
    using seq by simp
  have 2: "\<forall>j. j < length (calls (player s)) \<longrightarrow> c_seq (calls (player s) ! j) \<le> ttsSeqRef (player s)"
    using seq n by simp
  have 3: "\<forall>e s'. step e s = Some s' \<and> length (calls (player s)) < length (calls (player s')) \<longrightarrow>
            length (calls (player s')) = Suc (length (calls (player s))) \<and>
            c_seq (last (calls (player s'))) = Suc (ttsSeqRef (player s)) \<and>
            ttsSeqRef (player s') = Suc (ttsSeqRef (player s))"
    using speaks_facts(1-3) [OF step_speaks t] by blast
  have 4: "\<forall>c r u. step (FetchSettle c r) s = Some u \<and>
                  c_seq (calls (player s) ! c) \<noteq> ttsSeqRef (player s) \<longrightarrow>
            c_status (calls (player u) ! c) = Returned \<and>
            \<not> c_played (calls (player u) ! c) \<and>
            map c_audible (calls (player u)) = map c_audible (calls (player s)) \<and>
            ttsSeqRef (player u) = ttsSeqRef (player s) \<and>
            jobs (player u) = [JCont (c_kont (calls (player s) ! c))]"
    using stale_fetch_discarded [OF inv] by blast
  have 5: "\<forall>c. c < length (calls (player s)) \<and>
              (c_audible (calls (player s) ! c) \<or> c_status (calls (player s) ! c) = Playing) \<longrightarrow>
            c_seq (calls (player s) ! c) = ttsSeqRef (player s)"
  proof (intro allI impI, elim conjE)
    fix c
    assume c: "c < length (calls (player s))"
      and a: "c_audible (calls (player s) ! c) \<or> c_status (calls (player s) ! c) = Playing"
    from t c have "call_ok (player s) c (calls (player s) ! c)"
      by (simp add: tts_inv_def)
    with a c n show "c_seq (calls (player s) ! c) = ttsSeqRef (player s)"
      by (auto simp add: call_ok_def)
  qed
  have 6: "\<forall>e s' c. step e s = Some s' \<and>
              length (calls (player s)) < length (calls (player s')) \<and>
              c < length (calls (player s)) \<and> c_status (calls (player s) ! c) = Playing \<longrightarrow>
            c_status (calls (player s') ! c) = Resolved \<and> \<not> c_audible (calls (player s') ! c) \<and>
            (\<exists>n u. run (replicate n Micro) s' = Some u \<and>
                   c_status (calls (player u) ! c) = Returned \<and>
                   JCont (c_kont (calls (player s) ! c)) \<in> set (jobs (player u)))"
  proof (intro allI impI, elim conjE)
    fix e s' c
    assume st: "step e s = Some s'" and gr: "length (calls (player s)) < length (calls (player s'))"
      and c: "c < length (calls (player s))" and pl: "c_status (calls (player s) ! c) = Playing"
    let ?x = "calls (player s) ! c" and ?y = "calls (player s') ! c"
    have inv': "engine_inv s'" using step_inv [OF st inv] by simp
    have sp: "speaks (player s) (player s')" using st gr by (rule step_speaks)
    have r: "retired ?x ?y" using speaks_facts(5) [OF sp t c] .
    have len: "c < length (calls (player s'))" using speaks_facts(1) [OF sp t] c by simp
    from pl r have res: "c_status ?y = Resolved" and k: "c_kont ?y = c_kont ?x"
      and q: "\<not> c_audible ?y"
      by (simp_all add: retired_def)
    from inv' len have "call_ok (player s') c ?y" by (simp add: engine_inv_def tts_inv_def)
    with res have "JSpeakDone c \<in> set (jobs (player s'))"
      by (simp add: call_ok_def pending_returns_set)
    then obtain pre post where "jobs (player s') = pre @ JSpeakDone c # post"
      by (auto simp add: in_set_conv_decomp)
    from drain_to_return [OF this len] obtain u where
      u: "run (replicate (Suc (length pre)) Micro) s' = Some u \<and>
          c_status (calls (player u) ! c) = Returned \<and>
          JCont (c_kont ?y) \<in> set (jobs (player u))"
      by blast
    have "\<exists>n u. run (replicate n Micro) s' = Some u \<and>
             c_status (calls (player u) ! c) = Returned \<and>
             JCont (c_kont ?x) \<in> set (jobs (player u))"
      using u unfolding k by (intro exI)
    with res q show "c_status ?y = Resolved \<and> \<not> c_audible ?y \<and>
            (\<exists>n u. run (replicate n Micro) s' = Some u \<and>
                   c_status (calls (player u) ! c) = Returned \<and>
                   JCont (c_kont ?x) \<in> set (jobs (player u)))"
      by simp
  qed
  from 1 2 3 4 5 6 show ?thesis by (intro conjI) assumption+
qed

theorem sequence_numbers_witness:
  "c_seq (calls (player (chat greeting_playing 0)) ! 0) = ttsSeqRef (player (chat greeting_playing 0)) \<and>
   c_status (calls (player greeting_cut) ! 0) = Resolved \<and>
   \<not> c_audible (calls (player greeting_cut) ! 0) \<and>
   (\<exists>n u. run (replicate n Micro) greeting_cut = Some u \<and>
          c_status (calls (player u) ! 0) = Returned \<and>
          JCont KGreeting \<in> set (jobs (player u)))"
proof -
  have r: "app_reachable greeting_playing"
    using greeting_playing_state(1) by (rule app_run_initial_reachable)
  have i: "0 < length (chats greeting_playing)" by (simp add: greeting_playing_state)
  note m = sequence_numbers [OF r i refl]
  have 1: "c_seq (calls (player (chat greeting_playing 0)) ! 0) =
           ttsSeqRef (player (chat greeting_playing 0))"
    using m [THEN conjunct2, THEN conjunct2, THEN conjunct2, THEN conjunct2, THEN conjunct1,
        rule_format, of 0]
    by (simp add: greeting_playing_state)
  have 2: "c_status (calls (player greeting_cut) ! 0) = Resolved \<and>
           \<not> c_audible (calls (player greeting_cut) ! 0) \<and>
           (\<exists>n u. run (replicate n Micro) greeting_cut = Some u \<and>
                  c_status (calls (player u) ! 0) = Returned \<and>
                  JCont KGreeting \<in> set (jobs (player u)))"
    using m [THEN conjunct2, THEN conjunct2, THEN conjunct2, THEN conjunct2, THEN conjunct2,
        rule_format, of "NavClick (Mode Story)" greeting_cut 0]
    by (simp add: greeting_playing_state)
  from 1 2 show ?thesis by simp
qed

text \<open>
  C3 (capture half, code at the failing input). After a mode switch while listening in
  continuous mode, two restarts are pending; the second startRecording overwrites the refs
  of a session that is recording: two microphone streams are live, two recorders record
  and two analysis callbacks are scheduled. After the user stops the conversation and every
  pending callback has run, the earlier of the two sessions still records from a live
  stream.
\<close>

theorem capture_sessions_overlap:
  "run doubled_events (initial True ''VV'' 1000) = Some doubled \<and>
   map stream_live (sessions doubled) = [False, True, True] \<and>
   map rec_state (sessions doubled) = [Inactive, Recording, Recording] \<and>
   frames doubled = [2, 3] \<and> streamRef doubled = Some 2 \<and> mediaRecorderRef doubled = Some 2 \<and>
   run leaked_events (initial True ''VV'' 1000) = Some leaked \<and>
   map stream_live (sessions leaked) = [False, True, False] \<and>
   map rec_state (sessions leaked) = [Inactive, Recording, Inactive] \<and>
   frames leaked = [] \<and> timers leaked = [] \<and> jobs (player leaked) = [] \<and>
   gum_pending leaked = 0 \<and> jarvisPhase leaked = Idle"
  using run_the [OF doubled_eval] run_the [OF leaked_eval]
  by (simp add: doubled_def leaked_def)



text \<open>
  C5 (code at the failing input). The conversation is stopped while getUserMedia is
  pending, so isRecordingRef is false when the session starts at 1000 ms. At 21000 ms its
  maximum-duration timer has fired and found the flag false, the analysis loop has ended,
  no callback is pending, and the session is still recording from a live stream.
\<close>

theorem max_duration_missed:
  "run hot_mic_events (initial True ''VV'' 1000) = Some hot_mic \<and>
   map rec_state (sessions hot_mic) = [Recording] \<and> map stream_live (sessions hot_mic) = [True] \<and>
   clock hot_mic = 21000 \<and> timers hot_mic = [] \<and> frames hot_mic = [] \<and>
   jobs (player hot_mic) = [] \<and> gum_pending hot_mic = 0 \<and> jarvisPhase hot_mic = Idle \<and>
   \<not> isRecordingRef hot_mic"
  using run_the [OF hot_mic_eval] by (simp add: hot_mic_def)









text \<open>
  C9 (code at the failing input). The mode is switched while the first greeting of a
  conversation plays. handleModeSwitch stops that greeting, sets the phase to Speaking and
  awaits the greeting of the new mode; but stopping the first greeting resolved the
  promise that startConversation awaits, and once the promise jobs of the click have run
  startConversation has resumed: the phase is Listening and the microphone is requested
  while the greeting of the new mode is still being fetched. Then the microphone is
  granted and the greeting arrives: it plays while the session records from a live stream
  and the phase is Listening; no 500 ms restart has been set.
\<close>

theorem mode_switch_interrupts_greeting:
  "run greeting_switched_events (initial True ''VV'' 1000) = Some greeting_switched \<and>
   jarvisPhase greeting_switched = Listening \<and> gum_pending greeting_switched = 1 \<and>
   c_status (calls (player greeting_switched) ! 1) = InFlight \<and>
   run (greeting_switched_events @ [GumOk, FetchSettle 1 FetchOk]) (initial True ''VV'' 1000) =
     Some overheard \<and>
   jarvisPhase overheard = Listening \<and>
   map rec_state (sessions overheard) = [Recording] \<and>
   map stream_live (sessions overheard) = [True] \<and> isRecordingRef overheard \<and>
   map c_audible (calls (player overheard)) = [False, True] \<and>
   c_text (calls (player overheard) ! 1) = MODE_GREETINGS Story \<and>
   c_kont (calls (player overheard) ! 1) = KSwitchActive \<and>
   timers overheard = [(21000, TMaxTime 0)]"
  using run_the [OF greeting_switched_eval] run_the [OF overheard_eval]
  by (simp add: greeting_switched_def overheard_def)

text \<open>
  C10. A pending timer stays pending through every event but its own firing: nothing
  cancels the maximum-duration timer. When it fires while isRecordingRef is true, it stops
  the recorder that mediaRecorderRef holds, whichever session scheduled the timer. In the
  scenario of an automatic restart, the second session starts at 4800 ms; at 21000 ms the
  timer of the first session is due while the second session records, speech has not been
  detected and the second session's own timer is due only at 24800 ms.
\<close>

theorem stale_max_timer:
  "(\<forall>s e s' x. step e s = Some s' \<and> x \<in> set (timers s) \<and>
        (\<forall>i. e = Timeout i \<longrightarrow> timers s ! i \<noteq> x) \<longrightarrow> x \<in> set (timers s')) \<and>
   (\<forall>s i due r0 r. jobs (player s) = [] \<and> i < length (timers s) \<and>
        timers s ! i = (due, TMaxTime r0) \<and> due \<le> clock s \<and> isRecordingRef s \<and>
        mediaRecorderRef s = Some r \<and> r < length (sessions s) \<and>
        rec_state (sessions s ! r) = Recording \<longrightarrow>
        (\<exists>s'. step (Timeout i) s = Some s' \<and> \<not> isRecordingRef s' \<and>
              rec_state (sessions s' ! r) = Inactive \<and> stop_queued (sessions s' ! r))) \<and>
   reachable restarted \<and> jobs (player restarted) = [] \<and>
   timers restarted = [(21000, TMaxTime 0), (24800, TMaxTime 1)] \<and>
   clock restarted = 21000 \<and> isRecordingRef restarted \<and> mediaRecorderRef restarted = Some 1 \<and>
   length (sessions restarted) = 2 \<and> rec_state (sessions restarted ! 1) = Recording \<and>
   \<not> speechDetectedRef restarted"
proof -
  have 1: "\<forall>s e s' x. step e s = Some s' \<and> x \<in> set (timers s) \<and>
        (\<forall>i. e = Timeout i \<longrightarrow> timers s ! i \<noteq> x) \<longrightarrow> x \<in> set (timers s')"
    using step_timers by blast
  have 2: "\<forall>s i due r0 r. jobs (player s) = [] \<and> i < length (timers s) \<and>
        timers s ! i = (due, TMaxTime r0) \<and> due \<le> clock s \<and> isRecordingRef s \<and>
        mediaRecorderRef s = Some r \<and> r < length (sessions s) \<and>
        rec_state (sessions s ! r) = Recording \<longrightarrow>
        (\<exists>s'. step (Timeout i) s = Some s' \<and> \<not> isRecordingRef s' \<and>
              rec_state (sessions s' ! r) = Inactive \<and> stop_queued (sessions s' ! r))"
    using max_timer_stops by blast
  have 3: "reachable restarted" using restarted_state(1) by (rule run_initial_reachable)
  from 1 2 3 restarted_state(2-9) show ?thesis by (intro conjI) assumption+
qed

theorem stale_max_timer_witness:
  "step (Timeout 0) restarted = Some cut_short \<and> \<not> isRecordingRef cut_short \<and>
   rec_state (sessions cut_short ! 1) = Inactive \<and> stop_queued (sessions cut_short ! 1)"
proof -
  have "\<exists>s'. step (Timeout 0) restarted = Some s' \<and> \<not> isRecordingRef s' \<and>
              rec_state (sessions s' ! 1) = Inactive \<and> stop_queued (sessions s' ! 1)"
    using stale_max_timer [THEN conjunct2, THEN conjunct1, rule_format, of restarted 0 21000 0 1]
      restarted_state
    by simp
  then show ?thesis by (auto simp add: cut_short_def)
qed

end
